theory Spec2Isabelle
  imports Main
begin

section \<open>Tokens and the live token cursor\<close>

text \<open>
  The token kinds that \<^verbatim>\<open>ParseCXXInlineMethods.cpp\<close> distinguishes (\<^verbatim>\<open>tok::l_brace\<close> is
  written \<open>tok_l_brace\<close>). \<open>tok_identifier\<close> stands for every kind the file never names:
  all of them take the \<^verbatim>\<open>default\<close> branch of the switch.
\<close>

datatype TokenKind =
    tok_unknown | tok_eof
  | tok_l_paren | tok_r_paren
  | tok_l_square | tok_r_square
  | tok_l_brace | tok_r_brace
  | tok_string_literal | tok_wide_string_literal
  | tok_colon | tok_equal | tok_semi | tok_comma
  | tok_identifier

type_synonym SourceLocation = nat

record Token =
  Kind :: TokenKind
  Loc :: SourceLocation

type_synonym CachedTokens = "Token list"

text \<open>
  Modelled from the spec: the members \<^verbatim>\<open>Tok\<close>, \<^verbatim>\<open>PP\<close>, \<^verbatim>\<open>ParenCount\<close>, \<^verbatim>\<open>BracketCount\<close> and
  \<^verbatim>\<open>BraceCount\<close> are declared in \<^verbatim>\<open>Parser.h\<close>, which is not among the sources. The spec's
  "live token cursor" offers peek-current (\<open>Tok\<close>) and advance; \<open>PP\<close> is the finite list of
  tokens the preprocessor will still deliver, after which it delivers end-of-input for
  ever. The three counts are the spec's "outer open count" of each delimiter kind; their
  declared width is not in the sources, and they are natural numbers here.
\<close>

record Cursor =
  Tok :: Token
  PP :: "Token list"
  ParenCount :: nat
  BracketCount :: nat
  BraceCount :: nat

text \<open>
  Modelled from the spec: \<^verbatim>\<open>PP.Lex(Tok)\<close> (the cursor's "advance") belongs to the lexer, a
  collaborator. It makes the next pending token current; past the end of the stream the
  current token is end-of-input.
\<close>

definition Lex :: "Cursor \<Rightarrow> Cursor" where
  "Lex C = (case PP C of
              [] \<Rightarrow> C\<lparr>Tok := \<lparr>Kind = tok_eof, Loc = Loc (Tok C)\<rparr>\<rparr>
            | t # ts \<Rightarrow> C\<lparr>Tok := t, PP := ts\<rparr>)"

text \<open>
  Modelled from the spec: \<^verbatim>\<open>PP.EnterTokenStream\<close>, the cursor's "enter substitute token
  source": it pushes a finite token sequence to be consumed before the original stream
  continues.
\<close>

definition EnterTokenStream :: "Token list \<Rightarrow> Cursor \<Rightarrow> Cursor" where
  "EnterTokenStream Toks C = C\<lparr>PP := Toks @ PP C\<rparr>"

text \<open>
  The \<^verbatim>\<open>Consume*\<close> helpers and the \<^verbatim>\<open>isToken*\<close> tests of \<^verbatim>\<open>Parser.h\<close> are not among the
  sources. Each helper advances the cursor by one token; the delimiter helpers keep the
  open count of their kind. Each helper asserts that the current token is of its kind;
  every call below is made on a token of that kind, so the assertion is not modelled.
\<close>

text \<open>
  Modelled from the spec: \<^verbatim>\<open>ConsumeToken\<close> (missing, \<^verbatim>\<open>Parser.h\<close>) advances the cursor past a
  token that is neither a delimiter nor a string literal.
\<close>

definition ConsumeToken :: "Cursor \<Rightarrow> Cursor" where
  "ConsumeToken C = Lex C"

text \<open>
  Modelled from the spec: \<^verbatim>\<open>ConsumeStringToken\<close> (missing, \<^verbatim>\<open>Parser.h\<close>) advances the cursor
  past a string-literal token, which the scanner consumes as one unit.
\<close>

definition ConsumeStringToken :: "Cursor \<Rightarrow> Cursor" where
  "ConsumeStringToken C = Lex C"

text \<open>
  Modelled from the spec: \<^verbatim>\<open>ConsumeParen\<close> (missing, \<^verbatim>\<open>Parser.h\<close>) advances the cursor past a
  parenthesis and keeps the open count of parentheses: an opening one raises it, a closing
  one lowers it unless it is zero already.
\<close>

definition ConsumeParen :: "Cursor \<Rightarrow> Cursor" where
  "ConsumeParen C =
     Lex (if Kind (Tok C) = tok_l_paren then C\<lparr>ParenCount := ParenCount C + 1\<rparr>
          else if ParenCount C \<noteq> 0 then C\<lparr>ParenCount := ParenCount C - 1\<rparr>
          else C)"

text \<open>
  Modelled from the spec: \<^verbatim>\<open>ConsumeBracket\<close> (missing, \<^verbatim>\<open>Parser.h\<close>), the same for square
  brackets.
\<close>

definition ConsumeBracket :: "Cursor \<Rightarrow> Cursor" where
  "ConsumeBracket C =
     Lex (if Kind (Tok C) = tok_l_square then C\<lparr>BracketCount := BracketCount C + 1\<rparr>
          else if BracketCount C \<noteq> 0 then C\<lparr>BracketCount := BracketCount C - 1\<rparr>
          else C)"

text \<open>
  Modelled from the spec: \<^verbatim>\<open>ConsumeBrace\<close> (missing, \<^verbatim>\<open>Parser.h\<close>), the same for braces.
\<close>

definition ConsumeBrace :: "Cursor \<Rightarrow> Cursor" where
  "ConsumeBrace C =
     Lex (if Kind (Tok C) = tok_l_brace then C\<lparr>BraceCount := BraceCount C + 1\<rparr>
          else if BraceCount C \<noteq> 0 then C\<lparr>BraceCount := BraceCount C - 1\<rparr>
          else C)"

text \<open>
  Modelled from the spec: the tests \<^verbatim>\<open>isTokenParen\<close>, \<^verbatim>\<open>isTokenBracket\<close>, \<^verbatim>\<open>isTokenBrace\<close>
  and \<^verbatim>\<open>isTokenStringLiteral\<close> (missing, \<^verbatim>\<open>Parser.h\<close>) read the kind of the current token.
\<close>

definition isTokenParen :: "Cursor \<Rightarrow> bool" where
  "isTokenParen C = (Kind (Tok C) = tok_l_paren \<or> Kind (Tok C) = tok_r_paren)"

definition isTokenBracket :: "Cursor \<Rightarrow> bool" where
  "isTokenBracket C = (Kind (Tok C) = tok_l_square \<or> Kind (Tok C) = tok_r_square)"

definition isTokenBrace :: "Cursor \<Rightarrow> bool" where
  "isTokenBrace C = (Kind (Tok C) = tok_l_brace \<or> Kind (Tok C) = tok_r_brace)"

definition isTokenStringLiteral :: "Cursor \<Rightarrow> bool" where
  "isTokenStringLiteral C =
     (Kind (Tok C) = tok_string_literal \<or> Kind (Tok C) = tok_wide_string_literal)"

text \<open>
  Modelled from the spec: \<^verbatim>\<open>ConsumeAnyToken\<close> (missing, \<^verbatim>\<open>Parser.h\<close>) advances the cursor past
  the current token whatever its kind, through the helper of that kind.
\<close>

definition ConsumeAnyToken :: "Cursor \<Rightarrow> Cursor" where
  "ConsumeAnyToken C =
     (if isTokenParen C then ConsumeParen C
      else if isTokenBracket C then ConsumeBracket C
      else if isTokenBrace C then ConsumeBrace C
      else if isTokenStringLiteral C then ConsumeStringToken C
      else ConsumeToken C)"

text \<open>
  The number of tokens the cursor can still deliver before it is at end-of-input: the
  measure by which the scanner terminates.
\<close>

definition tokens_left :: "Cursor \<Rightarrow> nat" where
  "tokens_left C = length (PP C) + (if Kind (Tok C) = tok_eof then 0 else 1)"

text \<open>
  For stating what a call has consumed: the first \<open>n\<close> tokens the cursor delivers, the
  current token first, and the cursor \<open>n\<close> tokens further on with its open counts left
  as they are. Past the end of the stream the cursor delivers end-of-input tokens.
\<close>

fun delivered :: "nat \<Rightarrow> Cursor \<Rightarrow> Token list" where
  "delivered 0 C = []"
| "delivered (Suc n) C = Tok C # delivered n (Lex C)"

fun advanced :: "nat \<Rightarrow> Cursor \<Rightarrow> Cursor" where
  "advanced 0 C = C"
| "advanced (Suc n) C = advanced n (Lex C)"

text \<open>Two cursors with the same current token and the same tokens to come.\<close>

definition same_stream :: "Cursor \<Rightarrow> Cursor \<Rightarrow> bool" where
  "same_stream C D = (Tok C = Tok D \<and> PP C = PP D)"

text \<open>
  For concrete runs: a token of a kind at a location, and the cursor at the start of a
  token stream with no delimiter open.
\<close>

definition tk :: "TokenKind \<Rightarrow> SourceLocation \<Rightarrow> Token" where
  "tk k l = \<lparr>Kind = k, Loc = l\<rparr>"

definition startCursor :: "Token \<Rightarrow> Token list \<Rightarrow> Cursor" where
  "startCursor t ts = \<lparr>Tok = t, PP = ts, ParenCount = 0, BracketCount = 0, BraceCount = 0\<rparr>"


section \<open>The balanced token scanner\<close>

text \<open>
  \<^verbatim>\<open>Parser::ConsumeAndStoreUntil\<close>, lines 150 to 232. The \<^verbatim>\<open>while (1)\<close> loop is the
  recursion; its variable \<^verbatim>\<open>isFirstTokenConsumed\<close> is an argument. The token container
  \<^verbatim>\<open>Toks\<close>, passed by reference, is passed in and returned. The result of a recursive call
  on an opening delimiter is dropped by the source, and so it is here; the cursor and the
  container it leaves are kept.
\<close>

function ConsumeAndStoreUntil_loop ::
  "TokenKind \<Rightarrow> TokenKind \<Rightarrow> TokenKind \<Rightarrow> bool \<Rightarrow> bool \<Rightarrow> Cursor \<Rightarrow> CachedTokens
     \<Rightarrow> bool \<times> Cursor \<times> CachedTokens"
where
  "ConsumeAndStoreUntil_loop T1 T2 EarlyAbortIf ConsumeFinalToken isFirstTokenConsumed C Toks =
     (if Kind (Tok C) = T1 \<or> Kind (Tok C) = T2 then
        (if ConsumeFinalToken then (True, ConsumeAnyToken C, Toks @ [Tok C])
         else (True, C, Toks))
      else if Kind (Tok C) = EarlyAbortIf then (False, C, Toks)
      else (case Kind (Tok C) of
          tok_eof \<Rightarrow> (False, C, Toks)
        | tok_l_paren \<Rightarrow>
            (case ConsumeAndStoreUntil_loop tok_r_paren tok_unknown tok_unknown True True
                    (ConsumeParen C) (Toks @ [Tok C]) of
               (_, C', Toks') \<Rightarrow>
                 ConsumeAndStoreUntil_loop T1 T2 EarlyAbortIf ConsumeFinalToken False C' Toks')
        | tok_l_square \<Rightarrow>
            (case ConsumeAndStoreUntil_loop tok_r_square tok_unknown tok_unknown True True
                    (ConsumeBracket C) (Toks @ [Tok C]) of
               (_, C', Toks') \<Rightarrow>
                 ConsumeAndStoreUntil_loop T1 T2 EarlyAbortIf ConsumeFinalToken False C' Toks')
        | tok_l_brace \<Rightarrow>
            (case ConsumeAndStoreUntil_loop tok_r_brace tok_unknown tok_unknown True True
                    (ConsumeBrace C) (Toks @ [Tok C]) of
               (_, C', Toks') \<Rightarrow>
                 ConsumeAndStoreUntil_loop T1 T2 EarlyAbortIf ConsumeFinalToken False C' Toks')
        | tok_r_paren \<Rightarrow>
            (if ParenCount C \<noteq> 0 \<and> \<not> isFirstTokenConsumed then (False, C, Toks)
             else ConsumeAndStoreUntil_loop T1 T2 EarlyAbortIf ConsumeFinalToken False
                    (ConsumeParen C) (Toks @ [Tok C]))
        | tok_r_square \<Rightarrow>
            (if BracketCount C \<noteq> 0 \<and> \<not> isFirstTokenConsumed then (False, C, Toks)
             else ConsumeAndStoreUntil_loop T1 T2 EarlyAbortIf ConsumeFinalToken False
                    (ConsumeBracket C) (Toks @ [Tok C]))
        | tok_r_brace \<Rightarrow>
            (if BraceCount C \<noteq> 0 \<and> \<not> isFirstTokenConsumed then (False, C, Toks)
             else ConsumeAndStoreUntil_loop T1 T2 EarlyAbortIf ConsumeFinalToken False
                    (ConsumeBrace C) (Toks @ [Tok C]))
        | tok_string_literal \<Rightarrow>
            ConsumeAndStoreUntil_loop T1 T2 EarlyAbortIf ConsumeFinalToken False
              (ConsumeStringToken C) (Toks @ [Tok C])
        | tok_wide_string_literal \<Rightarrow>
            ConsumeAndStoreUntil_loop T1 T2 EarlyAbortIf ConsumeFinalToken False
              (ConsumeStringToken C) (Toks @ [Tok C])
        | _ \<Rightarrow>
            ConsumeAndStoreUntil_loop T1 T2 EarlyAbortIf ConsumeFinalToken False
              (ConsumeToken C) (Toks @ [Tok C])))"
  by pat_completeness auto

lemma tokens_left_Consume_le:
  "tokens_left (ConsumeToken C) \<le> tokens_left C"
  "tokens_left (ConsumeStringToken C) \<le> tokens_left C"
  "tokens_left (ConsumeParen C) \<le> tokens_left C"
  "tokens_left (ConsumeBracket C) \<le> tokens_left C"
  "tokens_left (ConsumeBrace C) \<le> tokens_left C"
  by (simp_all add: ConsumeToken_def ConsumeStringToken_def ConsumeParen_def
        ConsumeBracket_def ConsumeBrace_def tokens_left_def Lex_def split: list.split)

lemma tokens_left_ConsumeAnyToken_le: "tokens_left (ConsumeAnyToken C) \<le> tokens_left C"
  by (simp add: ConsumeAnyToken_def tokens_left_Consume_le)

lemma tokens_left_Consume_less:
  assumes "Kind (Tok C) \<noteq> tok_eof"
  shows "tokens_left (ConsumeToken C) < tokens_left C"
    and "tokens_left (ConsumeStringToken C) < tokens_left C"
    and "tokens_left (ConsumeParen C) < tokens_left C"
    and "tokens_left (ConsumeBracket C) < tokens_left C"
    and "tokens_left (ConsumeBrace C) < tokens_left C"
  using assms
  by (simp_all add: ConsumeToken_def ConsumeStringToken_def ConsumeParen_def
        ConsumeBracket_def ConsumeBrace_def tokens_left_def Lex_def split: list.split)

lemma tokens_left_ConsumeAnyToken_less:
  "Kind (Tok C) \<noteq> tok_eof \<Longrightarrow> tokens_left (ConsumeAnyToken C) < tokens_left C"
  by (simp add: ConsumeAnyToken_def tokens_left_Consume_less)

text \<open>
  Where the scanner returns at all, it leaves no more tokens than it found. This is what
  the nested call needs: the loop goes on from the cursor the recursive call leaves.
\<close>

lemma loop_dom_tokens_left:
  assumes "ConsumeAndStoreUntil_loop_dom (T1, T2, EA, CFT, first, C, Toks)"
  shows "tokens_left (fst (snd (ConsumeAndStoreUntil_loop T1 T2 EA CFT first C Toks)))
           \<le> tokens_left C"
  using assms
proof (induction rule: ConsumeAndStoreUntil_loop.pinduct)
  case (1 T1 T2 EA CFT first C Toks)
  note eq = ConsumeAndStoreUntil_loop.psimps[OF "1.hyps"]
  note le = tokens_left_Consume_le[of C] tokens_left_ConsumeAnyToken_le[of C]
  show ?case
  proof (cases "Kind (Tok C) = T1 \<or> Kind (Tok C) = T2")
    case True
    then show ?thesis by (simp add: eq le)
  next
    case nt: False
    show ?thesis
    proof (cases "Kind (Tok C) = EA")
      case True
      with nt show ?thesis by (simp add: eq)
    next
      case ne: False
      show ?thesis
        using nt ne "1.IH" le
        apply (cases "Kind (Tok C)")
                      apply (simp_all add: eq split: prod.splits)
          apply (auto intro: order_trans)
          apply (meson order_trans)
         apply (meson order_trans)
        apply (meson order_trans)
        done
    qed
  qed
qed

lemma loop_dom_tokens_left_res:
  assumes "ConsumeAndStoreUntil_loop_dom (T1, T2, EA, CFT, first, C, Toks)"
    and "(x, C', Toks') = ConsumeAndStoreUntil_loop T1 T2 EA CFT first C Toks"
  shows "tokens_left C' \<le> tokens_left C"
  using loop_dom_tokens_left[OF assms(1)] assms(2)[symmetric] by simp

termination ConsumeAndStoreUntil_loop
proof (relation "measure (\<lambda>(T1, T2, EA, CFT, first, C, Toks). tokens_left C)", goal_cases)
  case 1
  show ?case by simp
qed (auto simp: tokens_left_Consume_less dest!: loop_dom_tokens_left_res
       intro: le_less_trans tokens_left_Consume_less)

declare ConsumeAndStoreUntil_loop.simps [simp del]

text \<open>
  The entry point: the loop starts with \<^verbatim>\<open>isFirstTokenConsumed = true\<close>. The arguments
  are in the source's order.
\<close>

definition ConsumeAndStoreUntil ::
  "TokenKind \<Rightarrow> TokenKind \<Rightarrow> CachedTokens \<Rightarrow> TokenKind \<Rightarrow> bool \<Rightarrow> Cursor
     \<Rightarrow> bool \<times> Cursor \<times> CachedTokens"
where
  "ConsumeAndStoreUntil T1 T2 Toks EarlyAbortIf ConsumeFinalToken C =
     ConsumeAndStoreUntil_loop T1 T2 EarlyAbortIf ConsumeFinalToken True C Toks"


text \<open>
  The switch groups the token kinds: opening delimiters, closing delimiters, and the rest.
  \<open>closerOf\<close> is the closing delimiter the recursive call on an opening delimiter scans
  for, and \<open>OpenCount\<close> reads the open count that belongs to a delimiter kind.
\<close>

definition isOpening :: "TokenKind \<Rightarrow> bool" where
  "isOpening k = (k = tok_l_paren \<or> k = tok_l_square \<or> k = tok_l_brace)"

definition isClosing :: "TokenKind \<Rightarrow> bool" where
  "isClosing k = (k = tok_r_paren \<or> k = tok_r_square \<or> k = tok_r_brace)"

definition closerOf :: "TokenKind \<Rightarrow> TokenKind" where
  "closerOf k = (if k = tok_l_paren then tok_r_paren
                 else if k = tok_l_square then tok_r_square
                 else if k = tok_l_brace then tok_r_brace
                 else tok_unknown)"

definition OpenCount :: "Cursor \<Rightarrow> TokenKind \<Rightarrow> nat" where
  "OpenCount C k = (if k = tok_r_paren \<or> k = tok_l_paren then ParenCount C
                    else if k = tok_r_square \<or> k = tok_l_square then BracketCount C
                    else if k = tok_r_brace \<or> k = tok_l_brace then BraceCount C
                    else 0)"


section \<open>The class parse stack and the collaborators\<close>

text \<open>
  Modelled from the spec: the types \<^verbatim>\<open>LexedMethod\<close>, \<^verbatim>\<open>LateParsedDefaultArgument\<close>,
  \<^verbatim>\<open>LateParsedMethodDeclaration\<close> and \<^verbatim>\<open>TopClass\<close>, the stack \<^verbatim>\<open>TopClassStacks\<close> and the
  \<^verbatim>\<open>Declarator\<close> are declared in headers that are not among the sources. They follow the
  spec's data model: a deferred body item is a declaration handle with its captured token
  sequence; a deferred declaration item is a declaration handle with its parameter
  records, each a parameter handle and an optional captured sequence; a class frame holds
  the two queues; the class parse stack is a stack of frames whose head is the innermost
  open class. Handles are opaque, so they are numbers. Of a declarator only the kinds of
  its type objects are read.
\<close>

type_synonym DeclTy = nat

type_synonym ExprTy = nat

datatype AccessSpecifier = AS_none | AS_public | AS_protected | AS_private

datatype DeclaratorChunkKind =
  DeclaratorChunk_Pointer | DeclaratorChunk_Reference | DeclaratorChunk_Array
  | DeclaratorChunk_Function

record Declarator =
  DeclTypeInfo :: "DeclaratorChunkKind list"

record LexedMethod =
  LexedMethod_D :: DeclTy
  LexedMethod_Toks :: CachedTokens

record LateParsedDefaultArgument =
  Param :: DeclTy
  DefaultArg_Toks :: "CachedTokens option"

record LateParsedMethodDeclaration =
  Method :: DeclTy
  DefaultArgs :: "LateParsedDefaultArgument list"

record TopClass =
  MethodDecls :: "LateParsedMethodDeclaration list"
  MethodDefs :: "LexedMethod list"

text \<open>
  The collaborators. Every call to the semantic actions, every diagnostic, every scope that
  is entered or left and every call to a parser of the surrounding grammar is recorded, in
  order, as an event. What a collaborator returns, and where a parser of the surrounding
  grammar leaves the token cursor, are parameters of the model (\<open>Collaborators\<close>): such a
  parser works on the cursor only, it has no access to the queues of the frame being
  drained.
\<close>

datatype DiagID = err_expected_lbrace

datatype Event =
    ActOnCXXMemberDeclarator AccessSpecifier Declarator
  | Diag SourceLocation DiagID
  | EnterScope
  | ExitScope
  | ActOnStartDelayedCXXMethodDeclaration DeclTy
  | ActOnDelayedCXXMethodParameter DeclTy
  | ActOnParamDefaultArgumentError DeclTy
  | ActOnParamDefaultArgument DeclTy SourceLocation ExprTy
  | ActOnFinishDelayedCXXMethodDeclaration DeclTy
  | ActOnStartOfFunctionDef DeclTy
  | ParseConstructorInitializer DeclTy
  | ParseFunctionStatementBody DeclTy SourceLocation SourceLocation

datatype OwningExprResult = ExprError | ExprResult ExprTy

record Collaborators =
  MemberDeclarator :: "AccessSpecifier \<Rightarrow> Declarator \<Rightarrow> DeclTy"
  AssignmentExpression :: "Cursor \<Rightarrow> OwningExprResult \<times> Cursor"
  ConstructorInitializer :: "DeclTy \<Rightarrow> Cursor \<Rightarrow> Cursor"
  FunctionStatementBody :: "DeclTy \<Rightarrow> SourceLocation \<Rightarrow> SourceLocation \<Rightarrow> Cursor \<Rightarrow> Cursor"

record Parser =
  Cur :: Cursor
  TopClassStacks :: "TopClass list"
  Events :: "Event list"

text \<open>
  An \<^verbatim>\<open>assert\<close> that fails ends the run: the functions below return the assertion that
  failed, or their result. A run also ends, with \<open>UseAfterFree\<close>, where the source deletes
  a token sequence that the preprocessor has been given a pointer to and has not read to
  its end: the tokens still pending are read from freed memory, and what the source does
  from there on is undefined.
\<close>

datatype Assertion =
    NotAFunctionDeclarator
  | CurrentTokenNotLBraceOrColon
  | NoLexedMethodStacks
  | DefaultArgumentNotStartingWithEqual
  | EmptyBody
  | InlineMethodNotStartingWithLBraceOrColon

datatype Error = AssertionFailed Assertion | UseAfterFree

section \<open>The capture front-end\<close>

text \<open>
  \<^verbatim>\<open>D.getTypeObject(0).Kind == DeclaratorChunk::Function\<close>, the first assertion of
  \<^verbatim>\<open>ParseCXXInlineMethodDef\<close>.
\<close>

definition isFunctionDeclarator :: "Declarator \<Rightarrow> bool" where
  "isFunctionDeclarator Dcl =
     (case DeclTypeInfo Dcl of [] \<Rightarrow> False | k # _ \<Rightarrow> k = DeclaratorChunk_Function)"

text \<open>
  \<^verbatim>\<open>Toks\<close> in \<^verbatim>\<open>ParseCXXInlineMethodDef\<close> is a reference to the container of the item at the
  back of the queue: what the scanner appends is written to that item.
\<close>

definition set_back_Toks :: "CachedTokens \<Rightarrow> LexedMethod list \<Rightarrow> LexedMethod list" where
  "set_back_Toks Toks Defs =
     (if Defs = [] then []
      else butlast Defs @ [(last Defs)\<lparr>LexedMethod_Toks := Toks\<rparr>])"

text \<open>
  \<^verbatim>\<open>Parser::ParseCXXInlineMethodDef\<close>, lines 24 to 62. \<open>Defs\<close> is the body queue after
  \<^verbatim>\<open>push_back(LexedMethod(FnD))\<close>; the early return on a semicolon removes the item again
  with \<^verbatim>\<open>pop_back\<close> (\<open>butlast\<close>). The scan for the closing brace on line 59 ends both the
  branch of the constructor initializer and the branch of the opening brace.
\<close>

definition ParseCXXInlineMethodDef ::
  "Collaborators \<Rightarrow> AccessSpecifier \<Rightarrow> Declarator \<Rightarrow> Parser \<Rightarrow> Error + (DeclTy \<times> Parser)"
where
  "ParseCXXInlineMethodDef K AS Dcl P =
     (if \<not> isFunctionDeclarator Dcl then Inl (AssertionFailed NotAFunctionDeclarator)
      else if \<not> (Kind (Tok (Cur P)) = tok_l_brace \<or> Kind (Tok (Cur P)) = tok_colon)
        then Inl (AssertionFailed CurrentTokenNotLBraceOrColon)
      else
        let FnD = MemberDeclarator K AS Dcl;
            Ev = Events P @ [ActOnCXXMemberDeclarator AS Dcl]
        in case TopClassStacks P of
             [] \<Rightarrow> Inl (AssertionFailed NoLexedMethodStacks)
           | TC # stk \<Rightarrow>
               let Defs = MethodDefs TC @ [\<lparr>LexedMethod_D = FnD, LexedMethod_Toks = []\<rparr>] in
               if Kind (Tok (Cur P)) = tok_colon then
                 (case ConsumeAndStoreUntil tok_l_brace tok_unknown [] tok_semi True (Cur P) of
                    (found, C1, Toks1) \<Rightarrow>
                      if \<not> found \<and> Kind (Tok C1) = tok_semi then
                        Inr (FnD,
                             P\<lparr>Cur := ConsumeAnyToken C1,
                               TopClassStacks :=
                                 TC\<lparr>MethodDefs := butlast (set_back_Toks Toks1 Defs)\<rparr> # stk,
                               Events := Ev @ [Diag (Loc (Tok C1)) err_expected_lbrace]\<rparr>)
                      else
                        (case ConsumeAndStoreUntil tok_r_brace tok_unknown Toks1 tok_unknown
                                True C1 of
                           (_, C2, Toks2) \<Rightarrow>
                             Inr (FnD,
                                  P\<lparr>Cur := C2,
                                    TopClassStacks :=
                                      TC\<lparr>MethodDefs := set_back_Toks Toks2 Defs\<rparr> # stk,
                                    Events := Ev\<rparr>)))
               else
                 (case ConsumeAndStoreUntil tok_r_brace tok_unknown ([] @ [Tok (Cur P)])
                         tok_unknown True (ConsumeBrace (Cur P)) of
                    (_, C2, Toks2) \<Rightarrow>
                      Inr (FnD,
                           P\<lparr>Cur := C2,
                             TopClassStacks := TC\<lparr>MethodDefs := set_back_Toks Toks2 Defs\<rparr> # stk,
                             Events := Ev\<rparr>)))"

section \<open>The replay engine\<close>

text \<open>\<^verbatim>\<open>getCurTopClassStack().MethodDecls.pop_front()\<close> and its counterpart for the bodies.\<close>

definition pop_front_MethodDecls :: "Parser \<Rightarrow> Parser" where
  "pop_front_MethodDecls P =
     (case TopClassStacks P of
        [] \<Rightarrow> P
      | TC # stk \<Rightarrow> P\<lparr>TopClassStacks := TC\<lparr>MethodDecls := tl (MethodDecls TC)\<rparr> # stk\<rparr>)"

definition pop_front_MethodDefs :: "Parser \<Rightarrow> Parser" where
  "pop_front_MethodDefs P =
     (case TopClassStacks P of
        [] \<Rightarrow> P
      | TC # stk \<Rightarrow> P\<lparr>TopClassStacks := TC\<lparr>MethodDefs := tl (MethodDefs TC)\<rparr> # stk\<rparr>)"

text \<open>
  Line 86 gives the preprocessor a pointer to the captured sequence, not a copy of it (the
  last argument of \<^verbatim>\<open>EnterTokenStream\<close>, \<^verbatim>\<open>OwnsTokens\<close>, is false), and line 101 deletes the
  sequence when the expression has been parsed. \<open>C0\<close> is the cursor before the sequence was
  entered and \<open>C2\<close> the cursor the expression parser left. A parser only consumes tokens, so
  the tokens pending at \<open>C2\<close> are a tail of the entered sequence followed by the tokens that
  were pending at \<open>C0\<close>: tokens of the entered sequence are still pending exactly when more
  tokens are pending at \<open>C2\<close> than at \<open>C0\<close>.
\<close>

definition CachedTokens_pending :: "Cursor \<Rightarrow> Cursor \<Rightarrow> bool" where
  "CachedTokens_pending C0 C2 = (length (PP C0) < length (PP C2))"

text \<open>
  Line 102, \<^verbatim>\<open>LM.DefaultArgs[I].Toks = 0\<close>, where \<^verbatim>\<open>LM\<close> is the item at the front of the
  declaration queue of the current frame.
\<close>

definition clear_DefaultArg_Toks :: "nat \<Rightarrow> Parser \<Rightarrow> Parser" where
  "clear_DefaultArg_Toks I P =
     (case TopClassStacks P of
        [] \<Rightarrow> P
      | TC # stk \<Rightarrow>
          (case MethodDecls TC of
             [] \<Rightarrow> P
           | LM # rest \<Rightarrow>
               if I < length (DefaultArgs LM) then
                 P\<lparr>TopClassStacks :=
                     TC\<lparr>MethodDecls :=
                          LM\<lparr>DefaultArgs :=
                               (DefaultArgs LM)
                                 [I := (DefaultArgs LM ! I)\<lparr>DefaultArg_Toks := None\<rparr>]\<rparr>
                          # rest\<rparr>
                     # stk\<rparr>
               else P))"

text \<open>
  The inner loop of \<^verbatim>\<open>ParseLexedMethodDeclarations\<close>, lines 79 to 104. The list holds the
  parameter records \<^verbatim>\<open>LM.DefaultArgs[I]\<close> to \<^verbatim>\<open>LM.DefaultArgs[N - 1]\<close> that the loop has still
  to go through, \<open>I\<close> being the index of the first of them. After the semantic action for the
  parsed expression the source deletes the captured sequence (line 101): when tokens of the
  sequence are still pending the run ends with \<open>UseAfterFree\<close>; otherwise the pointer in the
  record is cleared (line 102) and the loop goes on from the cursor the expression parser
  left.
\<close>

fun ParseDefaultArguments ::
  "Collaborators \<Rightarrow> nat \<Rightarrow> LateParsedDefaultArgument list \<Rightarrow> Parser \<Rightarrow> Error + Parser"
where
  "ParseDefaultArguments K I [] P = Inr P"
| "ParseDefaultArguments K I (A # As) P =
     (let Ev = Events P @ [ActOnDelayedCXXMethodParameter (Param A)] in
      case DefaultArg_Toks A of
        None \<Rightarrow> ParseDefaultArguments K (Suc I) As (P\<lparr>Events := Ev\<rparr>)
      | Some Toks \<Rightarrow>
          let C1 = ConsumeAnyToken (EnterTokenStream (Toks @ [Tok (Cur P)]) (Cur P)) in
          if Kind (Tok C1) \<noteq> tok_equal
          then Inl (AssertionFailed DefaultArgumentNotStartingWithEqual)
          else
            let EqualLoc = Loc (Tok C1) in
            (case AssignmentExpression K (ConsumeToken C1) of
               (DefArgResult, C2) \<Rightarrow>
                 let Ev2 = Ev @ [case DefArgResult of
                                   ExprError \<Rightarrow> ActOnParamDefaultArgumentError (Param A)
                                 | ExprResult e \<Rightarrow>
                                     ActOnParamDefaultArgument (Param A) EqualLoc e] in
                 if CachedTokens_pending (Cur P) C2 then Inl UseAfterFree
                 else ParseDefaultArguments K (Suc I) As
                        (clear_DefaultArg_Toks I (P\<lparr>Cur := C2, Events := Ev2\<rparr>))))"

lemma TopClassStacks_pop_front_MethodDecls:
  "TopClassStacks (pop_front_MethodDecls P) =
     (case TopClassStacks P of
        [] \<Rightarrow> []
      | TC # stk \<Rightarrow> TC\<lparr>MethodDecls := tl (MethodDecls TC)\<rparr> # stk)"
  by (simp add: pop_front_MethodDecls_def split: list.splits)

lemma TopClassStacks_clear_DefaultArg_Toks:
  "TopClassStacks (pop_front_MethodDecls (clear_DefaultArg_Toks I P)) =
   TopClassStacks (pop_front_MethodDecls P)"
  by (simp add: TopClassStacks_pop_front_MethodDecls clear_DefaultArg_Toks_def
           split: list.splits)

lemma clear_DefaultArg_Toks_sel [simp]:
  "Cur (clear_DefaultArg_Toks I P) = Cur P"
  "Events (clear_DefaultArg_Toks I P) = Events P"
  by (simp_all add: clear_DefaultArg_Toks_def split: list.splits)

lemma ParseDefaultArguments_stack:
  "ParseDefaultArguments K I As P = Inr P' \<Longrightarrow>
   TopClassStacks (pop_front_MethodDecls P') = TopClassStacks (pop_front_MethodDecls P)"
proof (induction K I As P rule: ParseDefaultArguments.induct)
  case (1 K I P)
  then show ?case by simp
next
  case (2 K I A As P)
  let ?Ev = "Events P @ [ActOnDelayedCXXMethodParameter (Param A)]"
  show ?case
  proof (cases "DefaultArg_Toks A")
    case None
    with "2.prems" have "ParseDefaultArguments K (Suc I) As (P\<lparr>Events := ?Ev\<rparr>) = Inr P'"
      by (simp add: Let_def)
    from "2.IH"(1)[OF refl None this] show ?thesis
      by (simp add: TopClassStacks_pop_front_MethodDecls)
  next
    case (Some Toks)
    let ?C1 = "ConsumeAnyToken (EnterTokenStream (Toks @ [Tok (Cur P)]) (Cur P))"
    obtain r C2 where ae: "AssignmentExpression K (ConsumeToken ?C1) = (r, C2)"
      by (cases "AssignmentExpression K (ConsumeToken ?C1)")
    let ?Ev2 = "?Ev @ [case r of ExprError \<Rightarrow> ActOnParamDefaultArgumentError (Param A)
                        | ExprResult e \<Rightarrow> ActOnParamDefaultArgument (Param A) (Loc (Tok ?C1)) e]"
    let ?P2 = "clear_DefaultArg_Toks I (P\<lparr>Cur := C2, Events := ?Ev2\<rparr>)"
    from "2.prems" Some ae have eq: "Kind (Tok ?C1) = tok_equal"
      and np: "\<not> CachedTokens_pending (Cur P) C2"
      and run: "ParseDefaultArguments K (Suc I) As ?P2 = Inr P'"
      by (auto simp: Let_def split: if_splits)
    have "TopClassStacks (pop_front_MethodDecls P') = TopClassStacks (pop_front_MethodDecls ?P2)"
      using "2.IH"(2)[OF refl Some refl _ refl ae[symmetric] refl np run] eq by simp
    also have "\<dots> = TopClassStacks (pop_front_MethodDecls (P\<lparr>Cur := C2, Events := ?Ev2\<rparr>))"
      by (rule TopClassStacks_clear_DefaultArg_Toks)
    also have "\<dots> = TopClassStacks (pop_front_MethodDecls P)"
      by (simp add: TopClassStacks_pop_front_MethodDecls)
    finally show ?thesis .
  qed
qed

text \<open>\<^verbatim>\<open>Parser::ParseLexedMethodDeclarations\<close>, lines 68 to 110: the loop over the queue.\<close>

function ParseLexedMethodDeclarations :: "Collaborators \<Rightarrow> Parser \<Rightarrow> Error + Parser" where
  "ParseLexedMethodDeclarations K P =
     (case TopClassStacks P of
        [] \<Rightarrow> Inl (AssertionFailed NoLexedMethodStacks)
      | TC # stk \<Rightarrow>
          (case MethodDecls TC of
             [] \<Rightarrow> Inr P
           | LM # rest \<Rightarrow>
               (case ParseDefaultArguments K 0 (DefaultArgs LM)
                       (P\<lparr>Events := Events P @
                            [ActOnStartDelayedCXXMethodDeclaration (Method LM), EnterScope]\<rparr>) of
                  Inl e \<Rightarrow> Inl e
                | Inr P1 \<Rightarrow>
                    ParseLexedMethodDeclarations K
                      (pop_front_MethodDecls
                         (P1\<lparr>Events := Events P1 @
                               [ExitScope,
                                ActOnFinishDelayedCXXMethodDeclaration (Method LM)]\<rparr>)))))"
  by pat_completeness auto
termination ParseLexedMethodDeclarations
proof (relation "measure (\<lambda>(K, P). case TopClassStacks P of [] \<Rightarrow> 0
                                    | TC # _ \<Rightarrow> length (MethodDecls TC))")
  show "wf (measure (\<lambda>(K, P). case TopClassStacks P of [] \<Rightarrow> 0
                                    | TC # _ \<Rightarrow> length (MethodDecls TC)))" by simp
next
  fix K P TC stk LM rest P1
  assume st: "TopClassStacks P = TC # stk" and q: "MethodDecls TC = LM # rest"
    and run: "ParseDefaultArguments K 0 (DefaultArgs LM)
                (P\<lparr>Events := Events P @
                     [ActOnStartDelayedCXXMethodDeclaration (Method LM), EnterScope]\<rparr>) = Inr P1"
  have "TopClassStacks (pop_front_MethodDecls
          (P1\<lparr>Events := Events P1 @
                [ExitScope, ActOnFinishDelayedCXXMethodDeclaration (Method LM)]\<rparr>)) =
        TC\<lparr>MethodDecls := rest\<rparr> # stk"
    using ParseDefaultArguments_stack[OF run] st q
    by (simp add: TopClassStacks_pop_front_MethodDecls)
  then show "((K, pop_front_MethodDecls
          (P1\<lparr>Events := Events P1 @
                [ExitScope, ActOnFinishDelayedCXXMethodDeclaration (Method LM)]\<rparr>)), K, P)
        \<in> measure (\<lambda>(K, P). case TopClassStacks P of [] \<Rightarrow> 0
                                    | TC # _ \<Rightarrow> length (MethodDecls TC))"
    using st q by simp
qed

text \<open>
  \<^verbatim>\<open>Parser::ParseLexedMethodDefs\<close>, lines 115 to 141. The scope \<^verbatim>\<open>FnScope\<close> is left when
  the iteration ends.
\<close>

function ParseLexedMethodDefs :: "Collaborators \<Rightarrow> Parser \<Rightarrow> Error + Parser" where
  "ParseLexedMethodDefs K P =
     (case TopClassStacks P of
        [] \<Rightarrow> Inl (AssertionFailed NoLexedMethodStacks)
      | TC # stk \<Rightarrow>
          (case MethodDefs TC of
             [] \<Rightarrow> Inr P
           | LM # rest \<Rightarrow>
               if LexedMethod_Toks LM = [] then Inl (AssertionFailed EmptyBody)
               else
                 let C1 = ConsumeAnyToken
                            (EnterTokenStream (LexedMethod_Toks LM @ [Tok (Cur P)]) (Cur P)) in
                 if \<not> (Kind (Tok C1) = tok_l_brace \<or> Kind (Tok C1) = tok_colon)
                 then Inl (AssertionFailed InlineMethodNotStartingWithLBraceOrColon)
                 else
                   let Ev1 = Events P @ [EnterScope, ActOnStartOfFunctionDef (LexedMethod_D LM)];
                       (C2, Ev2) =
                         (if Kind (Tok C1) = tok_colon
                          then (ConstructorInitializer K (LexedMethod_D LM) C1,
                                Ev1 @ [ParseConstructorInitializer (LexedMethod_D LM)])
                          else (C1, Ev1));
                       C3 = FunctionStatementBody K (LexedMethod_D LM)
                              (Loc (Tok C2)) (Loc (Tok C2)) C2;
                       Ev3 = Ev2 @ [ParseFunctionStatementBody (LexedMethod_D LM)
                                      (Loc (Tok C2)) (Loc (Tok C2)), ExitScope]
                   in ParseLexedMethodDefs K
                        (pop_front_MethodDefs (P\<lparr>Cur := C3, Events := Ev3\<rparr>))))"
  by pat_completeness auto
termination ParseLexedMethodDefs
  by (relation "measure (\<lambda>(K, P). case TopClassStacks P of [] \<Rightarrow> 0
                                    | TC # _ \<Rightarrow> length (MethodDefs TC))")
     (auto simp: pop_front_MethodDefs_def)

declare ParseLexedMethodDeclarations.simps [simp del] ParseLexedMethodDefs.simps [simp del]



section \<open>What a run lets one observe\<close>

text \<open>
  The assertions of the replay engine, as predicates on the queued items: a body item can
  be replayed when its captured sequence is not empty and starts with an opening brace or
  a colon (lines 120 and 128); a parameter record can be replayed when it has no captured
  sequence, or one that starts with \<^verbatim>\<open>=\<close> (line 92).
\<close>

definition LexedMethod_replayable :: "LexedMethod \<Rightarrow> bool" where
  "LexedMethod_replayable LM =
     (case LexedMethod_Toks LM of
        [] \<Rightarrow> False
      | t # _ \<Rightarrow> Kind t = tok_l_brace \<or> Kind t = tok_colon)"

definition DefaultArgument_replayable :: "LateParsedDefaultArgument \<Rightarrow> bool" where
  "DefaultArgument_replayable A =
     (case DefaultArg_Toks A of
        None \<Rightarrow> True
      | Some [] \<Rightarrow> False
      | Some (t # _) \<Rightarrow> Kind t = tok_equal)"

text \<open>
  Projections of the event record: the declarations whose statement block was parsed, the
  declarations whose delayed processing was started, and the parameters that were brought
  into scope, each in the order of the calls.
\<close>

fun bodies_parsed :: "Event list \<Rightarrow> DeclTy list" where
  "bodies_parsed [] = []"
| "bodies_parsed (ParseFunctionStatementBody Dc l1 l2 # es) = Dc # bodies_parsed es"
| "bodies_parsed (_ # es) = bodies_parsed es"

fun declarations_started :: "Event list \<Rightarrow> DeclTy list" where
  "declarations_started [] = []"
| "declarations_started (ActOnStartDelayedCXXMethodDeclaration Dc # es) =
     Dc # declarations_started es"
| "declarations_started (_ # es) = declarations_started es"

fun parameters_introduced :: "Event list \<Rightarrow> DeclTy list" where
  "parameters_introduced [] = []"
| "parameters_introduced (ActOnDelayedCXXMethodParameter Pm # es) =
     Pm # parameters_introduced es"
| "parameters_introduced (_ # es) = parameters_introduced es"

text \<open>
  For concrete runs: collaborators whose assignment-expression parser consumes one token and
  reports an invalid expression, whose constructor-initializer parser skips to the opening
  brace and whose statement-block parser skips the braced block; a function declarator; and
  a parser at the start of a token stream with one open class frame.
\<close>

definition failingCollaborators :: Collaborators where
  "failingCollaborators =
     \<lparr>MemberDeclarator = (\<lambda>AS Dcl. 7),
      AssignmentExpression = (\<lambda>C. (ExprError, ConsumeAnyToken C)),
      ConstructorInitializer =
        (\<lambda>Dc C. fst (snd (ConsumeAndStoreUntil tok_l_brace tok_unknown [] tok_unknown False C))),
      FunctionStatementBody =
        (\<lambda>Dc l1 l2 C. fst (snd (ConsumeAndStoreUntil tok_r_brace tok_unknown [] tok_unknown True
                                    (ConsumeBrace C))))\<rparr>"

definition functionDeclarator :: Declarator where
  "functionDeclarator = \<lparr>DeclTypeInfo = [DeclaratorChunk_Function]\<rparr>"

definition startParser :: "Token \<Rightarrow> Token list \<Rightarrow> TopClass \<Rightarrow> Parser" where
  "startParser t ts TC = \<lparr>Cur = startCursor t ts, TopClassStacks = [TC], Events = []\<rparr>"

section \<open>Well-nested token regions\<close>

text \<open>
  The delimiter counter of the spec's balance property, in two strengths. \<open>net_nesting\<close>
  counts one up for an opening delimiter and one down for a closing one.
  \<open>delimiters_match\<close> keeps the stack of the closing delimiters that are awaited: a closing
  delimiter must be the one awaited, and at the end nothing may be awaited.
\<close>

fun net_nesting :: "Token list \<Rightarrow> int" where
  "net_nesting [] = 0"
| "net_nesting (t # ts) =
     (if isOpening (Kind t) then 1 else if isClosing (Kind t) then - 1 else 0) + net_nesting ts"

fun delimiters_match :: "TokenKind list \<Rightarrow> Token list \<Rightarrow> bool" where
  "delimiters_match st [] = (st = [])"
| "delimiters_match st (t # ts) =
     (if isOpening (Kind t) then delimiters_match (closerOf (Kind t) # st) ts
      else if isClosing (Kind t) then
        (case st of [] \<Rightarrow> False | c # st' \<Rightarrow> c = Kind t \<and> delimiters_match st' ts)
      else delimiters_match st ts)"

text \<open>
  The input on which a scan for \<open>T1\<close> or \<open>T2\<close> with early-abort kind \<open>EA\<close> is not disturbed:
  \<open>well_nested T1 T2 EA [] w\<close> holds when \<open>w\<close> has no end-of-input token, every opening
  delimiter in it is closed by the delimiter of its kind, no closing delimiter is stray, no
  token outside the delimited groups is of kind \<open>T1\<close>, \<open>T2\<close> or \<open>EA\<close>, and no token inside a
  group is of kind \<^verbatim>\<open>tok::unknown\<close> (the scan inside a group has \<^verbatim>\<open>tok::unknown\<close> as its
  second terminator). The stack holds the closing delimiters of the groups that are open.
\<close>

fun well_nested ::
  "TokenKind \<Rightarrow> TokenKind \<Rightarrow> TokenKind \<Rightarrow> TokenKind list \<Rightarrow> Token list \<Rightarrow> bool"
where
  "well_nested T1 T2 EA st [] = (st = [])"
| "well_nested T1 T2 EA st (t # ts) =
     (if Kind t = tok_eof then False
      else case st of
          [] \<Rightarrow>
            if Kind t = T1 \<or> Kind t = T2 \<or> Kind t = EA then False
            else if isOpening (Kind t) then well_nested T1 T2 EA [closerOf (Kind t)] ts
            else if isClosing (Kind t) then False
            else well_nested T1 T2 EA [] ts
        | c # st' \<Rightarrow>
            if Kind t = c then well_nested T1 T2 EA st' ts
            else if Kind t = tok_unknown then False
            else if isOpening (Kind t) then well_nested T1 T2 EA (closerOf (Kind t) # st) ts
            else if isClosing (Kind t) then False
            else well_nested T1 T2 EA st ts)"

text \<open>
  The same regions, built from the outside in: a region is empty, or a plain token followed
  by a region, or a delimited group (whose inside is a region of the scan for the closing
  delimiter) followed by a region.
\<close>

inductive region :: "TokenKind \<Rightarrow> TokenKind \<Rightarrow> TokenKind \<Rightarrow> Token list \<Rightarrow> bool" where
  empty: "region T1 T2 EA []"
| plain: "\<lbrakk>Kind t \<noteq> T1; Kind t \<noteq> T2; Kind t \<noteq> EA; Kind t \<noteq> tok_eof;
           \<not> isOpening (Kind t); \<not> isClosing (Kind t); region T1 T2 EA w\<rbrakk>
          \<Longrightarrow> region T1 T2 EA (t # w)"
| nested: "\<lbrakk>Kind op \<noteq> T1; Kind op \<noteq> T2; Kind op \<noteq> EA; isOpening (Kind op);
            region (closerOf (Kind op)) tok_unknown tok_unknown u;
            Kind cl = closerOf (Kind op); region T1 T2 EA w\<rbrakk>
           \<Longrightarrow> region T1 T2 EA (op # u @ cl # w)"

section \<open>Facts about the scanner\<close>

subsection \<open>The branches of the loop\<close>

text \<open>
  For the kinds of each group \<^verbatim>\<open>ConsumeAnyToken\<close> is the \<^verbatim>\<open>Consume*\<close> helper the switch calls,
  so the equations below state each group once.
\<close>

lemmas Consume_defs = isTokenParen_def isTokenBracket_def isTokenBrace_def
  isTokenStringLiteral_def ConsumeAnyToken_def ConsumeToken_def ConsumeStringToken_def

lemmas delim_defs = isOpening_def isClosing_def closerOf_def OpenCount_def

lemma loop_terminator:
  "Kind (Tok C) = T1 \<or> Kind (Tok C) = T2 \<Longrightarrow>
   ConsumeAndStoreUntil_loop T1 T2 EA CFT first C Toks =
     (if CFT then (True, ConsumeAnyToken C, Toks @ [Tok C]) else (True, C, Toks))"
  by (subst ConsumeAndStoreUntil_loop.simps) simp

lemma loop_abort:
  "\<not> (Kind (Tok C) = T1 \<or> Kind (Tok C) = T2) \<Longrightarrow> Kind (Tok C) = EA \<Longrightarrow>
   ConsumeAndStoreUntil_loop T1 T2 EA CFT first C Toks = (False, C, Toks)"
  by (subst ConsumeAndStoreUntil_loop.simps) simp

lemma loop_eof:
  "\<not> (Kind (Tok C) = T1 \<or> Kind (Tok C) = T2) \<Longrightarrow> Kind (Tok C) = tok_eof \<Longrightarrow>
   ConsumeAndStoreUntil_loop T1 T2 EA CFT first C Toks = (False, C, Toks)"
  by (subst ConsumeAndStoreUntil_loop.simps) simp

lemma loop_opening:
  "\<not> (Kind (Tok C) = T1 \<or> Kind (Tok C) = T2) \<Longrightarrow> Kind (Tok C) \<noteq> EA \<Longrightarrow>
   isOpening (Kind (Tok C)) \<Longrightarrow>
   ConsumeAndStoreUntil_loop T1 T2 EA CFT first C Toks =
     (case ConsumeAndStoreUntil_loop (closerOf (Kind (Tok C))) tok_unknown tok_unknown True True
             (ConsumeAnyToken C) (Toks @ [Tok C]) of
        (_, C', Toks') \<Rightarrow> ConsumeAndStoreUntil_loop T1 T2 EA CFT False C' Toks')"
  by (subst ConsumeAndStoreUntil_loop.simps) (auto simp: delim_defs Consume_defs)

lemma loop_closing:
  "\<not> (Kind (Tok C) = T1 \<or> Kind (Tok C) = T2) \<Longrightarrow> Kind (Tok C) \<noteq> EA \<Longrightarrow>
   isClosing (Kind (Tok C)) \<Longrightarrow>
   ConsumeAndStoreUntil_loop T1 T2 EA CFT first C Toks =
     (if OpenCount C (Kind (Tok C)) \<noteq> 0 \<and> \<not> first then (False, C, Toks)
      else ConsumeAndStoreUntil_loop T1 T2 EA CFT False (ConsumeAnyToken C) (Toks @ [Tok C]))"
  by (subst ConsumeAndStoreUntil_loop.simps) (auto simp: delim_defs Consume_defs)

lemma loop_plain:
  "\<not> (Kind (Tok C) = T1 \<or> Kind (Tok C) = T2) \<Longrightarrow> Kind (Tok C) \<noteq> EA \<Longrightarrow>
   Kind (Tok C) \<noteq> tok_eof \<Longrightarrow> \<not> isOpening (Kind (Tok C)) \<Longrightarrow> \<not> isClosing (Kind (Tok C)) \<Longrightarrow>
   ConsumeAndStoreUntil_loop T1 T2 EA CFT first C Toks =
     ConsumeAndStoreUntil_loop T1 T2 EA CFT False (ConsumeAnyToken C) (Toks @ [Tok C])"
  by (subst ConsumeAndStoreUntil_loop.simps)
     (cases "Kind (Tok C)"; simp add: delim_defs Consume_defs)

lemma loop_induct [case_names terminator abort eof opener stop skip plain]:
  assumes terminator: "\<And>T1 T2 EA CFT first C Toks.
      Kind (Tok C) = T1 \<or> Kind (Tok C) = T2 \<Longrightarrow> P T1 T2 EA CFT first C Toks"
    and abort: "\<And>T1 T2 EA CFT first C Toks.
      \<not> (Kind (Tok C) = T1 \<or> Kind (Tok C) = T2) \<Longrightarrow> Kind (Tok C) = EA \<Longrightarrow>
      P T1 T2 EA CFT first C Toks"
    and eof: "\<And>T1 T2 EA CFT first C Toks.
      \<not> (Kind (Tok C) = T1 \<or> Kind (Tok C) = T2) \<Longrightarrow> Kind (Tok C) \<noteq> EA \<Longrightarrow>
      Kind (Tok C) = tok_eof \<Longrightarrow> P T1 T2 EA CFT first C Toks"
    and opener: "\<And>T1 T2 EA CFT first C Toks.
      \<not> (Kind (Tok C) = T1 \<or> Kind (Tok C) = T2) \<Longrightarrow> Kind (Tok C) \<noteq> EA \<Longrightarrow>
      isOpening (Kind (Tok C)) \<Longrightarrow>
      P (closerOf (Kind (Tok C))) tok_unknown tok_unknown True True
        (ConsumeAnyToken C) (Toks @ [Tok C]) \<Longrightarrow>
      (\<And>x C' Toks'.
         ConsumeAndStoreUntil_loop (closerOf (Kind (Tok C))) tok_unknown tok_unknown True True
           (ConsumeAnyToken C) (Toks @ [Tok C]) = (x, C', Toks') \<Longrightarrow>
         P T1 T2 EA CFT False C' Toks') \<Longrightarrow>
      P T1 T2 EA CFT first C Toks"
    and stop: "\<And>T1 T2 EA CFT first C Toks.
      \<not> (Kind (Tok C) = T1 \<or> Kind (Tok C) = T2) \<Longrightarrow> Kind (Tok C) \<noteq> EA \<Longrightarrow>
      isClosing (Kind (Tok C)) \<Longrightarrow> OpenCount C (Kind (Tok C)) \<noteq> 0 \<Longrightarrow> \<not> first \<Longrightarrow>
      P T1 T2 EA CFT first C Toks"
    and skip: "\<And>T1 T2 EA CFT first C Toks.
      \<not> (Kind (Tok C) = T1 \<or> Kind (Tok C) = T2) \<Longrightarrow> Kind (Tok C) \<noteq> EA \<Longrightarrow>
      isClosing (Kind (Tok C)) \<Longrightarrow> OpenCount C (Kind (Tok C)) = 0 \<or> first \<Longrightarrow>
      P T1 T2 EA CFT False (ConsumeAnyToken C) (Toks @ [Tok C]) \<Longrightarrow>
      P T1 T2 EA CFT first C Toks"
    and plain: "\<And>T1 T2 EA CFT first C Toks.
      \<not> (Kind (Tok C) = T1 \<or> Kind (Tok C) = T2) \<Longrightarrow> Kind (Tok C) \<noteq> EA \<Longrightarrow>
      Kind (Tok C) \<noteq> tok_eof \<Longrightarrow> \<not> isOpening (Kind (Tok C)) \<Longrightarrow>
      \<not> isClosing (Kind (Tok C)) \<Longrightarrow>
      P T1 T2 EA CFT False (ConsumeAnyToken C) (Toks @ [Tok C]) \<Longrightarrow>
      P T1 T2 EA CFT first C Toks"
  shows "P T1 T2 EA CFT first C Toks"
proof (induction T1 T2 EA CFT first C Toks rule: ConsumeAndStoreUntil_loop.induct)
  case (1 T1 T2 EA CFT first C Toks)
  show ?case
  proof (cases "Kind (Tok C) = T1 \<or> Kind (Tok C) = T2")
    case True
    then show ?thesis by (rule terminator)
  next
    case nt: False
    show ?thesis
    proof (cases "Kind (Tok C) = EA")
      case True
      with nt show ?thesis by (rule abort)
    next
      case ne: False
      have any: "ConsumeParen C = ConsumeAnyToken C" if "isTokenParen C"
        using that by (simp add: Consume_defs)
      show ?thesis
      proof (cases "Kind (Tok C)")
        case tok_eof
        with nt ne show ?thesis by (simp add: eof)
      next
        case k: tok_l_paren
        show ?thesis
          apply (rule opener[OF nt ne])
          using k "1.IH"(2,3)[OF nt ne k] nt ne
          by (auto simp: delim_defs Consume_defs)
      next
        case k: tok_l_square
        show ?thesis
          apply (rule opener[OF nt ne])
          using k "1.IH"(5,6)[OF nt ne k] nt ne
          by (auto simp: delim_defs Consume_defs)
      next
        case k: tok_l_brace
        show ?thesis
          apply (rule opener[OF nt ne])
          using k "1.IH"(8,9)[OF nt ne k] nt ne
          by (auto simp: delim_defs Consume_defs)
      next
        case k: tok_r_paren
        show ?thesis
        proof (cases "ParenCount C \<noteq> 0 \<and> \<not> first")
          case True
          show ?thesis
            apply (rule stop[OF nt ne])
            using k True by (auto simp: delim_defs)
        next
          case False
          show ?thesis
            apply (rule skip[OF nt ne])
            using k False "1.IH"(4)[OF nt ne k False]
            by (auto simp: delim_defs Consume_defs)
        qed
      next
        case k: tok_r_square
        show ?thesis
        proof (cases "BracketCount C \<noteq> 0 \<and> \<not> first")
          case True
          show ?thesis
            apply (rule stop[OF nt ne])
            using k True by (auto simp: delim_defs)
        next
          case False
          show ?thesis
            apply (rule skip[OF nt ne])
            using k False "1.IH"(7)[OF nt ne k False]
            by (auto simp: delim_defs Consume_defs)
        qed
      next
        case k: tok_r_brace
        show ?thesis
        proof (cases "BraceCount C \<noteq> 0 \<and> \<not> first")
          case True
          show ?thesis
            apply (rule stop[OF nt ne])
            using k True by (auto simp: delim_defs)
        next
          case False
          show ?thesis
            apply (rule skip[OF nt ne])
            using k False "1.IH"(10)[OF nt ne k False]
            by (auto simp: delim_defs Consume_defs)
        qed
      next
        case k: tok_unknown
        show ?thesis
          apply (rule plain[OF nt ne])
          using k "1.IH"(1)[OF nt ne k]
          by (auto simp: delim_defs Consume_defs)
      next
        case k: tok_string_literal
        show ?thesis
          apply (rule plain[OF nt ne])
          using k "1.IH"(11)[OF nt ne k]
          by (auto simp: delim_defs Consume_defs)
      next
        case k: tok_wide_string_literal
        show ?thesis
          apply (rule plain[OF nt ne])
          using k "1.IH"(12)[OF nt ne k]
          by (auto simp: delim_defs Consume_defs)
      next
        case k: tok_colon
        show ?thesis
          apply (rule plain[OF nt ne])
          using k "1.IH"(13)[OF nt ne k]
          by (auto simp: delim_defs Consume_defs)
      next
        case k: tok_equal
        show ?thesis
          apply (rule plain[OF nt ne])
          using k "1.IH"(14)[OF nt ne k]
          by (auto simp: delim_defs Consume_defs)
      next
        case k: tok_semi
        show ?thesis
          apply (rule plain[OF nt ne])
          using k "1.IH"(15)[OF nt ne k]
          by (auto simp: delim_defs Consume_defs)
      next
        case k: tok_comma
        show ?thesis
          apply (rule plain[OF nt ne])
          using k "1.IH"(16)[OF nt ne k]
          by (auto simp: delim_defs Consume_defs)
      next
        case k: tok_identifier
        show ?thesis
          apply (rule plain[OF nt ne])
          using k "1.IH"(17)[OF nt ne k]
          by (auto simp: delim_defs Consume_defs)
      qed
    qed
  qed
qed

subsection \<open>Facts about every call\<close>

lemma loop_total: "All ConsumeAndStoreUntil_loop_dom"
  by (relation "measure (\<lambda>(T1, T2, EA, CFT, first, C, Toks). tokens_left C)")
     (auto simp: tokens_left_Consume_less dest!: loop_dom_tokens_left_res
       intro: le_less_trans tokens_left_Consume_less)

lemma loop_tokens_left:
  "ConsumeAndStoreUntil_loop T1 T2 EA CFT first C Toks = (x, C', Toks') \<Longrightarrow>
   tokens_left C' \<le> tokens_left C"
  using loop_dom_tokens_left[of T1 T2 EA CFT first C Toks] loop_total by simp

lemma loop_appends:
  "\<exists>ys. snd (snd (ConsumeAndStoreUntil_loop T1 T2 EA CFT first C Toks)) = Toks @ ys"
proof (induction T1 T2 EA CFT first C Toks rule: loop_induct)
  case (opener T1 T2 EA CFT first C Toks)
  obtain x C' Toks' where r: "ConsumeAndStoreUntil_loop (closerOf (Kind (Tok C))) tok_unknown
      tok_unknown True True (ConsumeAnyToken C) (Toks @ [Tok C]) = (x, C', Toks')"
    by (metis prod_cases3)
  from opener.IH(1) r obtain ys where "Toks' = (Toks @ [Tok C]) @ ys" by auto
  moreover from opener.IH(2)[OF r] obtain zs where
    "snd (snd (ConsumeAndStoreUntil_loop T1 T2 EA CFT False C' Toks')) = Toks' @ zs" by auto
  ultimately show ?case using opener.hyps r by (simp add: loop_opening)
qed (auto simp: loop_terminator loop_abort loop_eof loop_closing loop_plain)


lemma loop_not_found:
  "ConsumeAndStoreUntil_loop T1 T2 EA CFT first C Toks = (False, C', Toks') \<Longrightarrow>
   Kind (Tok C') \<noteq> T1 \<and> Kind (Tok C') \<noteq> T2 \<and>
   (Kind (Tok C') = EA \<or> Kind (Tok C') = tok_eof \<or>
    (isClosing (Kind (Tok C')) \<and> OpenCount C' (Kind (Tok C')) \<noteq> 0))"
proof (induction T1 T2 EA CFT first C Toks rule: loop_induct)
  case (opener T1 T2 EA CFT first C Toks)
  obtain x D Ts where r: "ConsumeAndStoreUntil_loop (closerOf (Kind (Tok C))) tok_unknown
      tok_unknown True True (ConsumeAnyToken C) (Toks @ [Tok C]) = (x, D, Ts)"
    by (metis prod_cases3)
  with opener.prems opener.hyps have
    "ConsumeAndStoreUntil_loop T1 T2 EA CFT False D Ts = (False, C', Toks')"
    by (simp add: loop_opening)
  with opener.IH(2)[OF r] show ?case by simp
qed (auto simp: loop_terminator loop_abort loop_eof loop_closing loop_plain split: if_splits)

lemmas Consume_all_defs = Consume_defs ConsumeParen_def ConsumeBracket_def ConsumeBrace_def Lex_def

lemma ConsumeAnyToken_next:
  "PP C = t # ts \<Longrightarrow> Tok (ConsumeAnyToken C) = t \<and> PP (ConsumeAnyToken C) = ts"
  by (simp add: Consume_all_defs)

subsection \<open>What a scan stores is what it consumed\<close>

lemma same_stream_refl [simp]: "same_stream C C"
  by (simp add: same_stream_def)

lemma same_stream_trans: "same_stream C D \<Longrightarrow> same_stream D E \<Longrightarrow> same_stream C E"
  by (simp add: same_stream_def)

lemma same_stream_Lex: "same_stream C D \<Longrightarrow> same_stream (Lex C) (Lex D)"
  by (auto simp: same_stream_def Lex_def split: list.splits)

lemma same_stream_ConsumeAnyToken: "same_stream (ConsumeAnyToken C) (Lex C)"
  by (simp add: same_stream_def Consume_all_defs split: list.splits)

lemma same_stream_delivered: "same_stream C D \<Longrightarrow> delivered n C = delivered n D"
proof (induction n arbitrary: C D)
  case (Suc n)
  from Suc.prems have "Tok C = Tok D" by (simp add: same_stream_def)
  moreover have "delivered n (Lex C) = delivered n (Lex D)"
    by (rule Suc.IH) (rule same_stream_Lex[OF Suc.prems])
  ultimately show ?case by simp
qed simp

lemma same_stream_advanced: "same_stream C D \<Longrightarrow> same_stream (advanced n C) (advanced n D)"
  by (induction n arbitrary: C D) (simp_all add: same_stream_Lex)

lemma delivered_add: "delivered (a + b) C = delivered a C @ delivered b (advanced a C)"
  by (induction a arbitrary: C) simp_all

lemma advanced_add: "advanced (a + b) C = advanced b (advanced a C)"
  by (induction a arbitrary: C) simp_all

lemma exact_none:
  "r = (b, C, Toks) \<Longrightarrow>
   \<exists>n. snd (snd r) = Toks @ delivered n C \<and> same_stream (fst (snd r)) (advanced n C)"
  by (intro exI[of _ 0]) simp

lemma loop_exact:
  "\<exists>n. snd (snd (ConsumeAndStoreUntil_loop T1 T2 EA CFT first C Toks)) = Toks @ delivered n C \<and>
       same_stream (fst (snd (ConsumeAndStoreUntil_loop T1 T2 EA CFT first C Toks)))
         (advanced n C)"
proof (induction T1 T2 EA CFT first C Toks rule: loop_induct)
  case (terminator T1 T2 EA CFT first C Toks)
  show ?case
  proof (cases CFT)
    case True
    have "ConsumeAndStoreUntil_loop T1 T2 EA CFT first C Toks =
        (True, ConsumeAnyToken C, Toks @ [Tok C])"
      using terminator True by (simp add: loop_terminator)
    then show ?thesis
      by (intro exI[of _ "Suc 0"]) (simp add: same_stream_ConsumeAnyToken)
  next
    case False
    have "ConsumeAndStoreUntil_loop T1 T2 EA CFT first C Toks = (True, C, Toks)"
      using terminator False by (simp add: loop_terminator)
    then show ?thesis by (intro exI[of _ 0]) simp
  qed
next
  case (abort T1 T2 EA CFT first C Toks)
  then have "ConsumeAndStoreUntil_loop T1 T2 EA CFT first C Toks = (False, C, Toks)"
    by (simp add: loop_abort)
  then show ?case by (rule exact_none)
next
  case (eof T1 T2 EA CFT first C Toks)
  then have "ConsumeAndStoreUntil_loop T1 T2 EA CFT first C Toks = (False, C, Toks)"
    by (simp add: loop_eof)
  then show ?case by (rule exact_none)
next
  case (stop T1 T2 EA CFT first C Toks)
  then have "ConsumeAndStoreUntil_loop T1 T2 EA CFT first C Toks = (False, C, Toks)"
    by (simp add: loop_closing)
  then show ?case by (rule exact_none)
next
  case (skip T1 T2 EA CFT first C Toks)
  let ?r = "ConsumeAndStoreUntil_loop T1 T2 EA CFT False (ConsumeAnyToken C) (Toks @ [Tok C])"
  from skip.IH obtain n where
    t: "snd (snd ?r) = (Toks @ [Tok C]) @ delivered n (ConsumeAnyToken C)"
    and c: "same_stream (fst (snd ?r)) (advanced n (ConsumeAnyToken C))" by blast
  have eq: "ConsumeAndStoreUntil_loop T1 T2 EA CFT first C Toks = ?r"
    using skip.hyps by (auto simp: loop_closing)
  have a: "snd (snd ?r) = Toks @ delivered (Suc n) C"
    using t same_stream_delivered[OF same_stream_ConsumeAnyToken, of n C] by simp
  have b: "same_stream (fst (snd ?r)) (advanced (Suc n) C)"
    using same_stream_trans[OF c same_stream_advanced[OF same_stream_ConsumeAnyToken]] by simp
  from a b show ?case unfolding eq by blast
next
  case (plain T1 T2 EA CFT first C Toks)
  let ?r = "ConsumeAndStoreUntil_loop T1 T2 EA CFT False (ConsumeAnyToken C) (Toks @ [Tok C])"
  from plain.IH obtain n where
    t: "snd (snd ?r) = (Toks @ [Tok C]) @ delivered n (ConsumeAnyToken C)"
    and c: "same_stream (fst (snd ?r)) (advanced n (ConsumeAnyToken C))" by blast
  have eq: "ConsumeAndStoreUntil_loop T1 T2 EA CFT first C Toks = ?r"
    using plain.hyps by (simp add: loop_plain)
  have a: "snd (snd ?r) = Toks @ delivered (Suc n) C"
    using t same_stream_delivered[OF same_stream_ConsumeAnyToken, of n C] by simp
  have b: "same_stream (fst (snd ?r)) (advanced (Suc n) C)"
    using same_stream_trans[OF c same_stream_advanced[OF same_stream_ConsumeAnyToken]] by simp
  from a b show ?case unfolding eq by blast
next
  case (opener T1 T2 EA CFT first C Toks)
  obtain x D Ts where r: "ConsumeAndStoreUntil_loop (closerOf (Kind (Tok C))) tok_unknown
      tok_unknown True True (ConsumeAnyToken C) (Toks @ [Tok C]) = (x, D, Ts)"
    by (metis prod_cases3)
  let ?r = "ConsumeAndStoreUntil_loop T1 T2 EA CFT False D Ts"
  from opener.IH(1) r obtain n1 where
    t1: "Ts = (Toks @ [Tok C]) @ delivered n1 (ConsumeAnyToken C)"
    and c1: "same_stream D (advanced n1 (ConsumeAnyToken C))" by auto
  from opener.IH(2)[OF r] obtain n2 where
    t2: "snd (snd ?r) = Ts @ delivered n2 D"
    and c2: "same_stream (fst (snd ?r)) (advanced n2 D)" by blast
  have d1: "same_stream D (advanced n1 (Lex C))"
    by (rule same_stream_trans[OF c1 same_stream_advanced[OF same_stream_ConsumeAnyToken]])
  have a: "snd (snd ?r) = Toks @ delivered (Suc (n1 + n2)) C"
    using t1 t2 same_stream_delivered[OF same_stream_ConsumeAnyToken, of n1 C]
      same_stream_delivered[OF d1, of n2]
    by (simp add: delivered_add)
  have b: "same_stream (fst (snd ?r)) (advanced (Suc (n1 + n2)) C)"
    using same_stream_trans[OF c2 same_stream_advanced[OF d1, of n2]]
    by (simp add: advanced_add)
  have eq: "ConsumeAndStoreUntil_loop T1 T2 EA CFT first C Toks = ?r"
    using opener.hyps r by (simp add: loop_opening)
  from a b show ?case unfolding eq by blast
qed

subsection \<open>Scanning a well-nested region\<close>

lemma net_nesting_append [simp]: "net_nesting (xs @ ys) = net_nesting xs + net_nesting ys"
  by (induction xs) simp_all

lemma isClosing_closerOf: "isOpening k \<Longrightarrow> isClosing (closerOf k) \<and> \<not> isOpening (closerOf k)"
  by (auto simp: delim_defs)

lemma region_net: "region T1 T2 EA w \<Longrightarrow> net_nesting w = 0"
  by (induction rule: region.induct) (auto simp: isClosing_closerOf)

lemma region_match:
  "region T1 T2 EA w \<Longrightarrow> delimiters_match st (w @ ys) = delimiters_match st ys"
proof (induction arbitrary: st ys rule: region.induct)
  case (nested op T1 T2 EA u cl w)
  have "delimiters_match st ((op # u @ cl # w) @ ys) =
        delimiters_match (closerOf (Kind op) # st) (u @ (cl # w @ ys))"
    using nested.hyps by simp
  also have "\<dots> = delimiters_match (closerOf (Kind op) # st) (cl # w @ ys)"
    by (rule nested.IH)
  also have "\<dots> = delimiters_match st (w @ ys)"
    using nested.hyps by (simp add: isClosing_closerOf)
  finally show ?case using nested.IH(2) by simp
qed simp_all

lemma well_nested_group:
  "well_nested T1 T2 EA (c # st) w \<Longrightarrow>
   \<exists>u cl v. w = u @ cl # v \<and> Kind cl = c \<and> region c tok_unknown tok_unknown u \<and>
             well_nested T1 T2 EA st v"
proof (induction w arbitrary: c st rule: length_induct)
  case (1 w)
  from "1.prems" obtain t ts where w: "w = t # ts" by (cases w) auto
  from "1.prems" w have neof: "Kind t \<noteq> tok_eof" by (auto split: if_splits)
  show ?case
  proof (cases "Kind t = c")
    case True
    with "1.prems" w neof have "well_nested T1 T2 EA st ts" by simp
    with True w region.empty[of c tok_unknown tok_unknown] show ?thesis by fastforce
  next
    case nc: False
    with "1.prems" w neof have nu: "Kind t \<noteq> tok_unknown" by (auto split: if_splits)
    show ?thesis
    proof (cases "isOpening (Kind t)")
      case True
      with "1.prems" w neof nc nu
      have "well_nested T1 T2 EA (closerOf (Kind t) # c # st) ts" by simp
      with "1.IH" w obtain u1 cl1 v1 where ts: "ts = u1 @ cl1 # v1"
        and k1: "Kind cl1 = closerOf (Kind t)"
        and r1: "region (closerOf (Kind t)) tok_unknown tok_unknown u1"
        and rest1: "well_nested T1 T2 EA (c # st) v1"
        by (metis length_Cons lessI)
      have "length v1 < length w" using w ts by simp
      with "1.IH" rest1 obtain u2 cl2 v2 where v1: "v1 = u2 @ cl2 # v2"
        and k2: "Kind cl2 = c" and r2: "region c tok_unknown tok_unknown u2"
        and rest2: "well_nested T1 T2 EA st v2"
        by metis
      have "region c tok_unknown tok_unknown (t # u1 @ cl1 # u2)"
        using nc nu True r1 k1 r2 by (intro region.nested) simp_all
      moreover have "w = (t # u1 @ cl1 # u2) @ cl2 # v2" using w ts v1 by simp
      ultimately show ?thesis using k2 rest2 by blast
    next
      case no: False
      with "1.prems" w neof nc nu have ncl: "\<not> isClosing (Kind t)"
        and tl: "well_nested T1 T2 EA (c # st) ts"
        by (auto split: if_splits)
      with "1.IH" w obtain u cl v where ts: "ts = u @ cl # v" and k: "Kind cl = c"
        and r: "region c tok_unknown tok_unknown u" and rest: "well_nested T1 T2 EA st v"
        by (metis length_Cons lessI)
      have "region c tok_unknown tok_unknown (t # u)"
        using nc nu neof no ncl r by (intro region.plain) simp_all
      moreover have "w = (t # u) @ cl # v" using w ts by simp
      ultimately show ?thesis using k rest by blast
    qed
  qed
qed

lemma well_nested_region: "well_nested T1 T2 EA [] w \<Longrightarrow> region T1 T2 EA w"
proof (induction w rule: length_induct)
  case (1 w)
  show ?case
  proof (cases w)
    case Nil
    then show ?thesis by (simp add: region.empty)
  next
    case (Cons t ts)
    with "1.prems" have neof: "Kind t \<noteq> tok_eof" and n1: "Kind t \<noteq> T1" and n2: "Kind t \<noteq> T2"
      and ne: "Kind t \<noteq> EA"
      by (auto split: if_splits)
    show ?thesis
    proof (cases "isOpening (Kind t)")
      case True
      with "1.prems" Cons neof n1 n2 ne have "well_nested T1 T2 EA [closerOf (Kind t)] ts"
        by simp
      from well_nested_group[OF this] obtain u cl v where ts: "ts = u @ cl # v"
        and k: "Kind cl = closerOf (Kind t)"
        and r: "region (closerOf (Kind t)) tok_unknown tok_unknown u"
        and rest: "well_nested T1 T2 EA [] v"
        by blast
      have "length v < length w" using Cons ts by simp
      with "1.IH" rest have "region T1 T2 EA v" by blast
      with n1 n2 ne True r k have "region T1 T2 EA (t # u @ cl # v)"
        by (intro region.nested) simp_all
      with Cons ts show ?thesis by simp
    next
      case no: False
      with "1.prems" Cons neof n1 n2 ne have ncl: "\<not> isClosing (Kind t)"
        and tl: "well_nested T1 T2 EA [] ts"
        by (auto split: if_splits)
      from "1.IH" tl Cons have "region T1 T2 EA ts" by simp
      with n1 n2 ne neof no ncl Cons show ?thesis by (simp add: region.plain)
    qed
  qed
qed

lemma length_delivered [simp]: "length (delivered n C) = n"
  by (induction n arbitrary: C) simp_all

lemma advanced_Suc: "advanced (Suc n) C = Lex (advanced n C)"
  by (induction n arbitrary: C) simp_all

lemma delivered_split:
  assumes "delivered (length xs + length ys) C = xs @ ys"
  shows "delivered (length xs) C = xs"
    and "delivered (length ys) (advanced (length xs) C) = ys"
  using assms by (simp_all add: delivered_add)

lemma advanced_counts [simp]:
  "ParenCount (advanced n C) = ParenCount C"
  "BracketCount (advanced n C) = BracketCount C"
  "BraceCount (advanced n C) = BraceCount C"
  by (induction n arbitrary: C) (simp_all add: Lex_def split: list.splits)

lemma Lex_count_update:
  "Lex (C\<lparr>ParenCount := k\<rparr>) = (Lex C)\<lparr>ParenCount := k\<rparr>"
  "Lex (C\<lparr>BracketCount := k\<rparr>) = (Lex C)\<lparr>BracketCount := k\<rparr>"
  "Lex (C\<lparr>BraceCount := k\<rparr>) = (Lex C)\<lparr>BraceCount := k\<rparr>"
  by (simp_all add: Lex_def split: list.splits)

lemma advanced_ParenCount_update:
  "advanced n (C\<lparr>ParenCount := k\<rparr>) = (advanced n C)\<lparr>ParenCount := k\<rparr>"
  by (induction n arbitrary: C) (simp_all add: Lex_count_update)

lemma advanced_BracketCount_update:
  "advanced n (C\<lparr>BracketCount := k\<rparr>) = (advanced n C)\<lparr>BracketCount := k\<rparr>"
  by (induction n arbitrary: C) (simp_all add: Lex_count_update)

lemma advanced_BraceCount_update:
  "advanced n (C\<lparr>BraceCount := k\<rparr>) = (advanced n C)\<lparr>BraceCount := k\<rparr>"
  by (induction n arbitrary: C) (simp_all add: Lex_count_update)

lemmas advanced_count_update =
  advanced_ParenCount_update advanced_BracketCount_update advanced_BraceCount_update

lemma ConsumeAnyToken_plain_Lex:
  "\<not> isOpening (Kind (Tok C)) \<Longrightarrow> \<not> isClosing (Kind (Tok C)) \<Longrightarrow> ConsumeAnyToken C = Lex C"
  by (simp add: Consume_defs delim_defs)

lemma ConsumeAnyToken_group:
  assumes "isOpening (Kind (Tok C))"
    and "Kind (Tok (advanced n (Lex C))) = closerOf (Kind (Tok C))"
  shows "ConsumeAnyToken (advanced n (ConsumeAnyToken C)) = advanced (Suc n) (Lex C)"
proof -
  let ?D = "advanced n (Lex C)"
  have same: "?D\<lparr>ParenCount := ParenCount C\<rparr> = ?D" "?D\<lparr>BracketCount := BracketCount C\<rparr> = ?D"
    "?D\<lparr>BraceCount := BraceCount C\<rparr> = ?D"
    by (simp_all add: Lex_def split: list.splits)
  have r: "advanced (Suc n) (Lex C) = Lex ?D" by (rule advanced_Suc)
  consider "Kind (Tok C) = tok_l_paren" | "Kind (Tok C) = tok_l_square"
    | "Kind (Tok C) = tok_l_brace"
    using assms(1) by (auto simp: isOpening_def)
  then show ?thesis
  proof cases
    case 1
    with assms(2) have k: "Kind (Tok ?D) = tok_r_paren" by (simp add: closerOf_def)
    have "ConsumeAnyToken C = (Lex C)\<lparr>ParenCount := ParenCount C + 1\<rparr>"
      using 1 by (simp add: Consume_defs ConsumeParen_def Lex_count_update)
    then show ?thesis unfolding r
      using k same by (simp add: advanced_count_update Consume_defs ConsumeParen_def)
  next
    case 2
    with assms(2) have k: "Kind (Tok ?D) = tok_r_square" by (simp add: closerOf_def)
    have "ConsumeAnyToken C = (Lex C)\<lparr>BracketCount := BracketCount C + 1\<rparr>"
      using 2 by (simp add: Consume_defs ConsumeBracket_def Lex_count_update)
    then show ?thesis unfolding r
      using k same by (simp add: advanced_count_update Consume_defs ConsumeBracket_def)
  next
    case 3
    with assms(2) have k: "Kind (Tok ?D) = tok_r_brace" by (simp add: closerOf_def)
    have "ConsumeAnyToken C = (Lex C)\<lparr>BraceCount := BraceCount C + 1\<rparr>"
      using 3 by (simp add: Consume_defs ConsumeBrace_def Lex_count_update)
    then show ?thesis unfolding r
      using k same by (simp add: advanced_count_update Consume_defs ConsumeBrace_def)
  qed
qed

lemma region_skip:
  "region T1 T2 EA w \<Longrightarrow> delivered (length w) C = w \<Longrightarrow>
   ConsumeAndStoreUntil_loop T1 T2 EA CFT first C Toks =
     ConsumeAndStoreUntil_loop T1 T2 EA CFT (first \<and> w = []) (advanced (length w) C) (Toks @ w)"
proof (induction arbitrary: C Toks first CFT rule: region.induct)
  case (empty T1 T2 EA)
  show ?case by simp
next
  case (plain t0 T1 T2 EA w)
  from plain.prems have tok: "Tok C = t0" and d: "delivered (length w) (Lex C) = w"
    by simp_all
  have nt: "\<not> (Kind (Tok C) = T1 \<or> Kind (Tok C) = T2)" and ne: "Kind (Tok C) \<noteq> EA"
    and nf: "Kind (Tok C) \<noteq> tok_eof" and no: "\<not> isOpening (Kind (Tok C))"
    and nc: "\<not> isClosing (Kind (Tok C))"
    using plain.hyps tok by simp_all
  have "ConsumeAndStoreUntil_loop T1 T2 EA CFT first C Toks =
        ConsumeAndStoreUntil_loop T1 T2 EA CFT False (Lex C) (Toks @ [t0])"
    unfolding loop_plain[OF nt ne nf no nc] ConsumeAnyToken_plain_Lex[OF no nc] tok
    by (rule refl)
  also have "\<dots> = ConsumeAndStoreUntil_loop T1 T2 EA CFT (False \<and> w = [])
      (advanced (length w) (Lex C)) ((Toks @ [t0]) @ w)"
    by (rule plain.IH[OF d])
  finally show ?case by simp
next
  case (nested op T1 T2 EA u cl w)
  from nested.prems have tok: "Tok C = op"
    and d: "delivered (length u + length (cl # w)) (Lex C) = u @ cl # w"
    by simp_all
  let ?C1 = "ConsumeAnyToken C"
  let ?D = "advanced (length u) (Lex C)"
  have du: "delivered (length u) (Lex C) = u" by (rule delivered_split(1)[OF d])
  have "delivered (length (cl # w)) ?D = cl # w" by (rule delivered_split(2)[OF d])
  then have cl: "Tok ?D = cl" and "delivered (length w) (Lex ?D) = w"
    by simp_all
  then have dw: "delivered (length w) (advanced (Suc (length u)) (Lex C)) = w"
    by (simp only: advanced_Suc)
  have s1: "same_stream ?C1 (Lex C)" by (rule same_stream_ConsumeAnyToken)
  have du1: "delivered (length u) ?C1 = u"
    using same_stream_delivered[OF s1, of "length u"] du by simp
  have cl1: "Tok (advanced (length u) ?C1) = cl"
    using same_stream_advanced[OF s1, of "length u"] cl by (simp add: same_stream_def)
  have k: "Kind (Tok (advanced (length u) ?C1)) = closerOf (Kind op) \<or>
           Kind (Tok (advanced (length u) ?C1)) = tok_unknown"
    using nested.hyps(6) cl1 by simp
  have "ConsumeAndStoreUntil_loop (closerOf (Kind op)) tok_unknown tok_unknown True True
          ?C1 (Toks @ [op]) =
        ConsumeAndStoreUntil_loop (closerOf (Kind op)) tok_unknown tok_unknown True
          (True \<and> u = []) (advanced (length u) ?C1) ((Toks @ [op]) @ u)"
    by (rule nested.IH(1)[OF du1])
  also have "\<dots> = (True, ConsumeAnyToken (advanced (length u) ?C1), ((Toks @ [op]) @ u) @ [cl])"
    using k cl1 by (simp add: loop_terminator)
  finally have inner: "ConsumeAndStoreUntil_loop (closerOf (Kind op)) tok_unknown tok_unknown
      True True ?C1 (Toks @ [op]) =
      (True, advanced (Suc (length u)) (Lex C), ((Toks @ [op]) @ u) @ [cl])"
    using ConsumeAnyToken_group[of C "length u"] nested.hyps(4,6) tok cl by simp
  have nt: "\<not> (Kind (Tok C) = T1 \<or> Kind (Tok C) = T2)" and ne: "Kind (Tok C) \<noteq> EA"
    and io: "isOpening (Kind (Tok C))"
    using nested.hyps tok by simp_all
  have "ConsumeAndStoreUntil_loop T1 T2 EA CFT first C Toks =
        ConsumeAndStoreUntil_loop T1 T2 EA CFT False (advanced (Suc (length u)) (Lex C))
          (((Toks @ [op]) @ u) @ [cl])"
    unfolding loop_opening[OF nt ne io] tok inner by simp
  also have "\<dots> = ConsumeAndStoreUntil_loop T1 T2 EA CFT (False \<and> w = [])
      (advanced (length w) (advanced (Suc (length u)) (Lex C))) ((((Toks @ [op]) @ u) @ [cl]) @ w)"
    by (rule nested.IH(2)[OF dw])
  also have "advanced (length w) (advanced (Suc (length u)) (Lex C)) =
      advanced (length (op # u @ cl # w)) C"
    using advanced_add[of "Suc (length u)" "length w" "Lex C"] by simp
  finally show ?case by simp
qed

section \<open>Facts about capture and replay\<close>

lemma Enter_ConsumeAnyToken:
  "Tok (ConsumeAnyToken (EnterTokenStream ((t # ts) @ [x]) C)) = t"
  "PP (ConsumeAnyToken (EnterTokenStream ((t # ts) @ [x]) C)) = ts @ x # PP C"
  using ConsumeAnyToken_next[of "EnterTokenStream ((t # ts) @ [x]) C" t "ts @ x # PP C"]
  by (simp_all add: EnterTokenStream_def)

lemma butlast_set_back_Toks: "butlast (set_back_Toks Toks (Defs @ [LM])) = Defs"
  by (simp add: set_back_Toks_def)

lemma set_back_Toks_snoc:
  "set_back_Toks Toks (Defs @ [LM]) = Defs @ [LM\<lparr>LexedMethod_Toks := Toks\<rparr>]"
  by (simp add: set_back_Toks_def)

text \<open>The scan stores the token it starts on, unless it returns before consuming it.\<close>

lemma ConsumeAndStoreUntil_appends:
  "\<exists>ys. snd (snd (ConsumeAndStoreUntil T1 T2 Toks EA CFT C)) = Toks @ ys"
  unfolding ConsumeAndStoreUntil_def by (rule loop_appends)

lemma ConsumeAndStoreUntil_colon_first:
  assumes "Kind (Tok C) = tok_colon"
  shows "\<exists>ys. snd (snd (ConsumeAndStoreUntil tok_l_brace tok_unknown [] tok_semi True C))
           = Tok C # ys"
proof -
  have "ConsumeAndStoreUntil tok_l_brace tok_unknown [] tok_semi True C =
        ConsumeAndStoreUntil_loop tok_l_brace tok_unknown tok_semi True False
          (ConsumeAnyToken C) ([] @ [Tok C])"
    unfolding ConsumeAndStoreUntil_def using assms
    by (subst loop_plain) (simp_all add: delim_defs)
  with loop_appends[of tok_l_brace tok_unknown tok_semi True False "ConsumeAnyToken C" "[Tok C]"]
  show ?thesis by auto
qed

lemma ParseCXXInlineMethodDef_result:
  assumes "ParseCXXInlineMethodDef K AS Dcl P = Inr (FnD, P')"
  shows "\<exists>TC stk. TopClassStacks P = TC # stk \<and>
           (TopClassStacks P' = TopClassStacks P \<or>
            (\<exists>Toks. TopClassStacks P' =
                TC\<lparr>MethodDefs := MethodDefs TC @
                      [\<lparr>LexedMethod_D = FnD, LexedMethod_Toks = Tok (Cur P) # Toks\<rparr>]\<rparr> # stk
              \<and> (Kind (Tok (Cur P)) = tok_l_brace \<or> Kind (Tok (Cur P)) = tok_colon)))"
proof -
  from assms have fd: "isFunctionDeclarator Dcl"
    and tk: "Kind (Tok (Cur P)) = tok_l_brace \<or> Kind (Tok (Cur P)) = tok_colon"
    by (auto simp: ParseCXXInlineMethodDef_def split: if_splits)
  from assms fd tk obtain TC stk where st: "TopClassStacks P = TC # stk"
    by (cases "TopClassStacks P") (auto simp: ParseCXXInlineMethodDef_def Let_def)
  show ?thesis
  proof (cases "Kind (Tok (Cur P)) = tok_colon")
    case True
    obtain f C1 Toks1 where r1:
      "ConsumeAndStoreUntil tok_l_brace tok_unknown [] tok_semi True (Cur P) = (f, C1, Toks1)"
      by (metis prod_cases3)
    from ConsumeAndStoreUntil_colon_first[OF True] r1 obtain ys where t1: "Toks1 = Tok (Cur P) # ys"
      by auto
    obtain g C2 Toks2 where r2:
      "ConsumeAndStoreUntil tok_r_brace tok_unknown Toks1 tok_unknown True C1 = (g, C2, Toks2)"
      by (metis prod_cases3)
    from ConsumeAndStoreUntil_appends[of tok_r_brace tok_unknown Toks1 tok_unknown True C1] r2 t1
    obtain zs where t2: "Toks2 = Tok (Cur P) # zs" by auto
    from assms fd True st r1 r2 t2 show ?thesis
      by (auto simp: ParseCXXInlineMethodDef_def Let_def butlast_set_back_Toks
            set_back_Toks_snoc split: if_splits)
  next
    case False
    obtain g C2 Toks2 where r2:
      "ConsumeAndStoreUntil tok_r_brace tok_unknown [Tok (Cur P)] tok_unknown True
         (ConsumeBrace (Cur P)) = (g, C2, Toks2)"
      by (metis prod_cases3)
    from ConsumeAndStoreUntil_appends[of tok_r_brace tok_unknown "[Tok (Cur P)]" tok_unknown True
        "ConsumeBrace (Cur P)"] r2
    obtain zs where t2: "Toks2 = Tok (Cur P) # zs" by auto
    from assms fd tk False st r2 t2 show ?thesis
      by (auto simp: ParseCXXInlineMethodDef_def Let_def set_back_Toks_snoc)
  qed
qed

lemma bodies_parsed_append [simp]:
  "bodies_parsed (xs @ ys) = bodies_parsed xs @ bodies_parsed ys"
  by (induction xs rule: bodies_parsed.induct) simp_all

lemma declarations_started_append [simp]:
  "declarations_started (xs @ ys) = declarations_started xs @ declarations_started ys"
  by (induction xs rule: declarations_started.induct) simp_all

lemma parameters_introduced_append [simp]:
  "parameters_introduced (xs @ ys) = parameters_introduced xs @ parameters_introduced ys"
  by (induction xs rule: parameters_introduced.induct) simp_all

lemma ParseLexedMethodDefs_order:
  "MethodDefs TC = Defs \<Longrightarrow> TopClassStacks P = TC # stk \<Longrightarrow>
   ParseLexedMethodDefs K P = Inr P' \<Longrightarrow>
   bodies_parsed (Events P') = bodies_parsed (Events P) @ map LexedMethod_D Defs \<and>
   TopClassStacks P' = TC\<lparr>MethodDefs := []\<rparr> # stk"
proof (induction Defs arbitrary: TC P)
  case Nil
  then show ?case by (simp add: ParseLexedMethodDefs.simps)
next
  case (Cons LM rest)
  let ?C1 = "ConsumeAnyToken (EnterTokenStream (LexedMethod_Toks LM @ [Tok (Cur P)]) (Cur P))"
  let ?Ev1 = "Events P @ [EnterScope, ActOnStartOfFunctionDef (LexedMethod_D LM)]"
  let ?C2 = "if Kind (Tok ?C1) = tok_colon
             then ConstructorInitializer K (LexedMethod_D LM) ?C1 else ?C1"
  let ?Ev2 = "if Kind (Tok ?C1) = tok_colon
              then ?Ev1 @ [ParseConstructorInitializer (LexedMethod_D LM)] else ?Ev1"
  let ?C3 = "FunctionStatementBody K (LexedMethod_D LM) (Loc (Tok ?C2)) (Loc (Tok ?C2)) ?C2"
  let ?Ev3 = "?Ev2 @ [ParseFunctionStatementBody (LexedMethod_D LM)
                        (Loc (Tok ?C2)) (Loc (Tok ?C2)), ExitScope]"
  let ?P2 = "pop_front_MethodDefs (P\<lparr>Cur := ?C3, Events := ?Ev3\<rparr>)"
  from Cons.prems have run: "ParseLexedMethodDefs K ?P2 = Inr P'"
    by (subst (asm) ParseLexedMethodDefs.simps) (auto simp: Let_def split: if_splits)
  have st: "TopClassStacks ?P2 = TC\<lparr>MethodDefs := rest\<rparr> # stk"
    using Cons.prems by (simp add: pop_front_MethodDefs_def)
  have ev: "Events ?P2 = ?Ev3"
    using Cons.prems by (simp add: pop_front_MethodDefs_def)
  from Cons.IH[OF _ st run] ev show ?case by simp
qed

lemma ParseLexedMethodDefs_runs:
  "MethodDefs TC = Defs \<Longrightarrow> TopClassStacks P = TC # stk \<Longrightarrow>
   \<forall>LM\<in>set Defs. LexedMethod_replayable LM \<Longrightarrow>
   \<exists>P'. ParseLexedMethodDefs K P = Inr P'"
proof (induction Defs arbitrary: TC P)
  case Nil
  then show ?case by (simp add: ParseLexedMethodDefs.simps)
next
  case (Cons LM rest)
  from Cons.prems(3) obtain t ts where toks: "LexedMethod_Toks LM = t # ts"
    and kt: "Kind t = tok_l_brace \<or> Kind t = tok_colon"
    by (auto simp: LexedMethod_replayable_def split: list.splits)
  let ?C1 = "ConsumeAnyToken (EnterTokenStream (LexedMethod_Toks LM @ [Tok (Cur P)]) (Cur P))"
  have c1: "Tok ?C1 = t" unfolding toks by (rule Enter_ConsumeAnyToken)
  let ?Ev1 = "Events P @ [EnterScope, ActOnStartOfFunctionDef (LexedMethod_D LM)]"
  let ?C2 = "if Kind (Tok ?C1) = tok_colon
             then ConstructorInitializer K (LexedMethod_D LM) ?C1 else ?C1"
  let ?Ev2 = "if Kind (Tok ?C1) = tok_colon
              then ?Ev1 @ [ParseConstructorInitializer (LexedMethod_D LM)] else ?Ev1"
  let ?C3 = "FunctionStatementBody K (LexedMethod_D LM) (Loc (Tok ?C2)) (Loc (Tok ?C2)) ?C2"
  let ?Ev3 = "?Ev2 @ [ParseFunctionStatementBody (LexedMethod_D LM)
                        (Loc (Tok ?C2)) (Loc (Tok ?C2)), ExitScope]"
  let ?P2 = "pop_front_MethodDefs (P\<lparr>Cur := ?C3, Events := ?Ev3\<rparr>)"
  have step: "ParseLexedMethodDefs K P = ParseLexedMethodDefs K ?P2"
    using Cons.prems(1,2) toks kt c1
    by (subst ParseLexedMethodDefs.simps) (auto simp: Let_def)
  have st: "TopClassStacks ?P2 = TC\<lparr>MethodDefs := rest\<rparr> # stk"
    using Cons.prems by (simp add: pop_front_MethodDefs_def)
  from Cons.IH[OF _ st] Cons.prems(3) step show ?case by simp
qed

lemma ParseDefaultArguments_step:
  assumes "DefaultArg_Toks A = Some (t # ts)" and "Kind t = tok_equal"
    and "AssignmentExpression K
           (ConsumeToken (ConsumeAnyToken (EnterTokenStream ((t # ts) @ [Tok (Cur P)]) (Cur P)))) =
         (r, C2)"
  shows "ParseDefaultArguments K I (A # As) P =
     (if CachedTokens_pending (Cur P) C2 then Inl UseAfterFree
      else ParseDefaultArguments K (Suc I) As
             (clear_DefaultArg_Toks I
                (P\<lparr>Cur := C2,
                   Events := Events P @
                     [ActOnDelayedCXXMethodParameter (Param A),
                      case r of
                        ExprError \<Rightarrow> ActOnParamDefaultArgumentError (Param A)
                      | ExprResult e \<Rightarrow> ActOnParamDefaultArgument (Param A) (Loc t) e]\<rparr>)))"
proof -
  have "Tok (ConsumeAnyToken (EnterTokenStream ((t # ts) @ [Tok (Cur P)]) (Cur P))) = t"
    by (rule Enter_ConsumeAnyToken)
  with assms show ?thesis by (simp add: Let_def)
qed

lemma ParseDefaultArguments_events:
  "ParseDefaultArguments K I As P = Inr P' \<Longrightarrow>
   parameters_introduced (Events P') = parameters_introduced (Events P) @ map Param As \<and>
   declarations_started (Events P') = declarations_started (Events P)"
proof (induction K I As P rule: ParseDefaultArguments.induct)
  case (1 K I P)
  then show ?case by simp
next
  case (2 K I A As P)
  let ?Ev = "Events P @ [ActOnDelayedCXXMethodParameter (Param A)]"
  show ?case
  proof (cases "DefaultArg_Toks A")
    case None
    with "2.prems" have "ParseDefaultArguments K (Suc I) As (P\<lparr>Events := ?Ev\<rparr>) = Inr P'"
      by (simp add: Let_def)
    from "2.IH"(1)[OF refl None this] show ?thesis by simp
  next
    case (Some Toks)
    let ?C1 = "ConsumeAnyToken (EnterTokenStream (Toks @ [Tok (Cur P)]) (Cur P))"
    obtain r C2 where ae: "AssignmentExpression K (ConsumeToken ?C1) = (r, C2)"
      by (cases "AssignmentExpression K (ConsumeToken ?C1)")
    let ?Ev2 = "?Ev @ [case r of ExprError \<Rightarrow> ActOnParamDefaultArgumentError (Param A)
                        | ExprResult e \<Rightarrow> ActOnParamDefaultArgument (Param A) (Loc (Tok ?C1)) e]"
    let ?P2 = "clear_DefaultArg_Toks I (P\<lparr>Cur := C2, Events := ?Ev2\<rparr>)"
    from "2.prems" Some ae have eq: "Kind (Tok ?C1) = tok_equal"
      and np: "\<not> CachedTokens_pending (Cur P) C2"
      and run: "ParseDefaultArguments K (Suc I) As ?P2 = Inr P'"
      by (auto simp: Let_def split: if_splits)
    have "parameters_introduced (Events P') =
            parameters_introduced (Events ?P2) @ map Param As \<and>
          declarations_started (Events P') = declarations_started (Events ?P2)"
      using "2.IH"(2)[OF refl Some refl _ refl ae[symmetric] refl np run] eq by simp
    then show ?thesis by (cases r) simp_all
  qed
qed

lemma ParseDefaultArguments_runs:
  "\<forall>A\<in>set As. DefaultArgument_replayable A \<Longrightarrow>
   (\<exists>P'. ParseDefaultArguments K I As P = Inr P') \<or>
   ParseDefaultArguments K I As P = Inl UseAfterFree"
proof (induction As arbitrary: I P)
  case Nil
  show ?case by simp
next
  case (Cons A As)
  show ?case
  proof (cases "DefaultArg_Toks A")
    case None
    with Cons show ?thesis by (simp add: Let_def)
  next
    case (Some Toks)
    with Cons.prems obtain t ts where toks: "DefaultArg_Toks A = Some (t # ts)"
      and kt: "Kind t = tok_equal"
      by (auto simp: DefaultArgument_replayable_def split: list.splits)
    obtain r C2 where ae: "AssignmentExpression K
           (ConsumeToken (ConsumeAnyToken (EnterTokenStream ((t # ts) @ [Tok (Cur P)]) (Cur P)))) =
         (r, C2)"
      by (metis surj_pair)
    from Cons.IH Cons.prems show ?thesis
      unfolding ParseDefaultArguments_step[OF toks kt ae] by simp
  qed
qed

lemma Events_pop_front_MethodDecls [simp]:
  "Events (pop_front_MethodDecls P) = Events P"
  by (simp add: pop_front_MethodDecls_def split: list.splits)

lemma ParseLexedMethodDeclarations_order:
  "MethodDecls TC = Decls \<Longrightarrow> TopClassStacks P = TC # stk \<Longrightarrow>
   ParseLexedMethodDeclarations K P = Inr P' \<Longrightarrow>
   declarations_started (Events P') = declarations_started (Events P) @ map Method Decls \<and>
   parameters_introduced (Events P') =
     parameters_introduced (Events P) @ concat (map (\<lambda>LM. map Param (DefaultArgs LM)) Decls) \<and>
   TopClassStacks P' = TC\<lparr>MethodDecls := []\<rparr> # stk"
proof (induction Decls arbitrary: TC P)
  case Nil
  then show ?case by (simp add: ParseLexedMethodDeclarations.simps)
next
  case (Cons LM rest)
  let ?P0 = "P\<lparr>Events := Events P @
               [ActOnStartDelayedCXXMethodDeclaration (Method LM), EnterScope]\<rparr>"
  from Cons.prems obtain P1 where
    args: "ParseDefaultArguments K 0 (DefaultArgs LM) ?P0 = Inr P1"
    by (subst (asm) ParseLexedMethodDeclarations.simps) (auto split: sum.splits)
  let ?P2 = "pop_front_MethodDecls
               (P1\<lparr>Events := Events P1 @
                     [ExitScope, ActOnFinishDelayedCXXMethodDeclaration (Method LM)]\<rparr>)"
  from Cons.prems args have run: "ParseLexedMethodDeclarations K ?P2 = Inr P'"
    by (subst (asm) ParseLexedMethodDeclarations.simps) simp
  have st: "TopClassStacks ?P2 = TC\<lparr>MethodDecls := rest\<rparr> # stk"
    using ParseDefaultArguments_stack[OF args] Cons.prems(1,2)
    by (simp add: TopClassStacks_pop_front_MethodDecls)
  have ev: "Events ?P2 =
      Events P1 @ [ExitScope, ActOnFinishDelayedCXXMethodDeclaration (Method LM)]"
    by simp
  from Cons.IH[OF _ st run] ev ParseDefaultArguments_events[OF args] show ?case by simp
qed

lemma ParseLexedMethodDeclarations_runs:
  "MethodDecls TC = Decls \<Longrightarrow> TopClassStacks P = TC # stk \<Longrightarrow>
   \<forall>LM\<in>set Decls. \<forall>A\<in>set (DefaultArgs LM). DefaultArgument_replayable A \<Longrightarrow>
   (\<exists>P'. ParseLexedMethodDeclarations K P = Inr P') \<or>
   ParseLexedMethodDeclarations K P = Inl UseAfterFree"
proof (induction Decls arbitrary: TC P)
  case Nil
  then show ?case by (simp add: ParseLexedMethodDeclarations.simps)
next
  case (Cons LM rest)
  let ?P0 = "P\<lparr>Events := Events P @
               [ActOnStartDelayedCXXMethodDeclaration (Method LM), EnterScope]\<rparr>"
  from Cons.prems(3) ParseDefaultArguments_runs[of "DefaultArgs LM" K 0 ?P0]
  consider P1 where "ParseDefaultArguments K 0 (DefaultArgs LM) ?P0 = Inr P1"
    | "ParseDefaultArguments K 0 (DefaultArgs LM) ?P0 = Inl UseAfterFree"
    by auto
  then show ?case
  proof cases
    case args: 1
    let ?P2 = "pop_front_MethodDecls
                 (P1\<lparr>Events := Events P1 @
                       [ExitScope, ActOnFinishDelayedCXXMethodDeclaration (Method LM)]\<rparr>)"
    have step: "ParseLexedMethodDeclarations K P = ParseLexedMethodDeclarations K ?P2"
      using Cons.prems(1,2) args by (subst ParseLexedMethodDeclarations.simps) simp
    have st: "TopClassStacks ?P2 = TC\<lparr>MethodDecls := rest\<rparr> # stk"
      using ParseDefaultArguments_stack[OF args] Cons.prems(1,2)
      by (simp add: TopClassStacks_pop_front_MethodDecls)
    from Cons.IH[OF _ st] Cons.prems(3) step show ?thesis by simp
  next
    case 2
    then have "ParseLexedMethodDeclarations K P = Inl UseAfterFree"
      using Cons.prems(1,2) by (subst ParseLexedMethodDeclarations.simps) simp
    then show ?thesis by simp
  qed
qed

lemma failingCollaborators_sel:
  "MemberDeclarator failingCollaborators AS Dcl = 7"
  "AssignmentExpression failingCollaborators C = (ExprError, ConsumeAnyToken C)"
  "ConstructorInitializer failingCollaborators Dc C =
     fst (snd (ConsumeAndStoreUntil tok_l_brace tok_unknown [] tok_unknown False C))"
  "FunctionStatementBody failingCollaborators Dc l1 l2 C =
     fst (snd (ConsumeAndStoreUntil tok_r_brace tok_unknown [] tok_unknown True (ConsumeBrace C)))"
  by (simp_all add: failingCollaborators_def)

lemmas replay_defs = failingCollaborators_sel functionDeclarator_def startParser_def
  LexedMethod_replayable_def DefaultArgument_replayable_def
  ParseCXXInlineMethodDef_def set_back_Toks_def isFunctionDeclarator_def EnterTokenStream_def
  pop_front_MethodDefs_def pop_front_MethodDecls_def CachedTokens_pending_def
  clear_DefaultArg_Toks_def Let_def

section \<open>Properties of the scanner\<close>

lemmas run_defs = ConsumeAndStoreUntil_def startCursor_def tk_def Consume_defs
  ConsumeParen_def ConsumeBracket_def ConsumeBrace_def Lex_def

text \<open>
  Claim C1, as stated: whatever the input, the tokens a call appends replay to net-zero
  nesting. Two runs of a scan for a closing brace refute it. On the stream of a single
  opening parenthesis the call runs into end-of-input and has stored the parenthesis alone:
  net nesting one. On the stream \<^verbatim>\<open>( ] }\<close> with one brace open, the scan inside the
  parenthesis stores the stray bracket and stops at the brace; the call then finds its
  terminator, returns true, and has stored \<^verbatim>\<open>( ] }\<close>: net nesting minus one.
\<close>

theorem ConsumeAndStoreUntil_unbalanced_counterexample:
  "ConsumeAndStoreUntil tok_r_brace tok_unknown [] tok_unknown True
     (startCursor (tk tok_l_paren 1) []) =
     (False, \<lparr>Tok = tk tok_eof 1, PP = [], ParenCount = 1, BracketCount = 0, BraceCount = 0\<rparr>,
      [tk tok_l_paren 1])
   \<and> net_nesting [tk tok_l_paren 1] = 1
   \<and> \<not> delimiters_match [] [tk tok_l_paren 1]
   \<and> ConsumeAndStoreUntil tok_r_brace tok_unknown [] tok_unknown True
     \<lparr>Tok = tk tok_l_paren 1, PP = [tk tok_r_square 2, tk tok_r_brace 3], ParenCount = 0,
        BracketCount = 0, BraceCount = 1\<rparr> =
     (True, \<lparr>Tok = tk tok_eof 3, PP = [], ParenCount = 1, BracketCount = 0, BraceCount = 0\<rparr>,
      [tk tok_l_paren 1, tk tok_r_square 2, tk tok_r_brace 3])
   \<and> net_nesting [tk tok_l_paren 1, tk tok_r_square 2, tk tok_r_brace 3] = - 1
   \<and> \<not> delimiters_match [] [tk tok_l_paren 1, tk tok_r_square 2, tk tok_r_brace 3]"
  by (simp add: run_defs delim_defs ConsumeAndStoreUntil_loop.simps)

text \<open>
  Claim C1, amended. Let the tokens to come start with a well-nested region \<open>w\<close>, and let
  \<open>D\<close> be the cursor behind it. When the token after the region is a terminator, the call
  returns true and has appended exactly \<open>w\<close> and then the terminator (or exactly \<open>w\<close>,
  leaving the terminator current, when \<^verbatim>\<open>ConsumeFinalToken\<close> is cleared). When it is no
  terminator and is of the early-abort kind, or end-of-input, or a closing delimiter whose
  open count is not zero (the region not being empty), the call returns false at \<open>D\<close> and
  has appended exactly \<open>w\<close>. In each case the tokens the call appended, the consumed
  terminator apart, are delimiter-balanced: every opening delimiter among them is matched
  by the closing delimiter of its kind at its nesting level, and their net nesting is zero.
\<close>

theorem ConsumeAndStoreUntil_captures_well_nested:
  assumes "well_nested T1 T2 EarlyAbortIf [] w"
    and "delivered (length w) C = w"
    and "D = advanced (length w) C"
    and "r = ConsumeAndStoreUntil T1 T2 Toks EarlyAbortIf ConsumeFinalToken C"
    and "stored = drop (length Toks) (snd (snd r))"
  shows "(Kind (Tok D) = T1 \<or> Kind (Tok D) = T2 \<longrightarrow>
           r = (if ConsumeFinalToken then (True, ConsumeAnyToken D, Toks @ w @ [Tok D])
                else (True, D, Toks @ w))
           \<and> delimiters_match [] (if ConsumeFinalToken then butlast stored else stored)
           \<and> net_nesting (if ConsumeFinalToken then butlast stored else stored) = 0)
       \<and> (Kind (Tok D) \<noteq> T1 \<and> Kind (Tok D) \<noteq> T2 \<and>
            (Kind (Tok D) = EarlyAbortIf \<or> Kind (Tok D) = tok_eof \<or>
             (isClosing (Kind (Tok D)) \<and> OpenCount D (Kind (Tok D)) \<noteq> 0 \<and> w \<noteq> [])) \<longrightarrow>
           r = (False, D, Toks @ w)
           \<and> delimiters_match [] stored \<and> net_nesting stored = 0)"
proof -
  from assms(1) have reg: "region T1 T2 EarlyAbortIf w" by (rule well_nested_region)
  have r: "r = ConsumeAndStoreUntil_loop T1 T2 EarlyAbortIf ConsumeFinalToken (w = []) D
      (Toks @ w)"
    unfolding assms(3,4) ConsumeAndStoreUntil_def
    using region_skip[OF reg assms(2), of ConsumeFinalToken True Toks] by simp
  have m: "delimiters_match [] w" using region_match[OF reg, of "[]" "[]"] by simp
  have n: "net_nesting w = 0" by (rule region_net[OF reg])
  have found: "r = (if ConsumeFinalToken then (True, ConsumeAnyToken D, Toks @ w @ [Tok D])
                else (True, D, Toks @ w))"
    if "Kind (Tok D) = T1 \<or> Kind (Tok D) = T2"
    unfolding r using that by (simp add: loop_terminator)
  have lost: "r = (False, D, Toks @ w)"
    if "Kind (Tok D) \<noteq> T1 \<and> Kind (Tok D) \<noteq> T2 \<and>
            (Kind (Tok D) = EarlyAbortIf \<or> Kind (Tok D) = tok_eof \<or>
             (isClosing (Kind (Tok D)) \<and> OpenCount D (Kind (Tok D)) \<noteq> 0 \<and> w \<noteq> []))"
  proof -
    from that have nt: "\<not> (Kind (Tok D) = T1 \<or> Kind (Tok D) = T2)" by simp
    show ?thesis
    proof (cases "Kind (Tok D) = EarlyAbortIf")
      case True
      then show ?thesis unfolding r by (simp add: loop_abort[OF nt])
    next
      case ne: False
      show ?thesis
      proof (cases "Kind (Tok D) = tok_eof")
        case True
        then show ?thesis unfolding r by (simp add: loop_eof[OF nt])
      next
        case False
        with that ne have "isClosing (Kind (Tok D))" "OpenCount D (Kind (Tok D)) \<noteq> 0" "w \<noteq> []"
          by simp_all
        then show ?thesis unfolding r by (simp add: loop_closing[OF nt ne])
      qed
    qed
  qed
  show ?thesis
  proof (intro conjI impI)
    assume k: "Kind (Tok D) = T1 \<or> Kind (Tok D) = T2"
    show "r = (if ConsumeFinalToken then (True, ConsumeAnyToken D, Toks @ w @ [Tok D])
                else (True, D, Toks @ w))" by (rule found[OF k])
    have "(if ConsumeFinalToken then butlast stored else stored) = w"
      unfolding assms(5) found[OF k] by (simp add: butlast_append)
    then show "delimiters_match [] (if ConsumeFinalToken then butlast stored else stored)"
      and "net_nesting (if ConsumeFinalToken then butlast stored else stored) = 0"
      using m n by simp_all
  next
    assume k: "Kind (Tok D) \<noteq> T1 \<and> Kind (Tok D) \<noteq> T2 \<and>
            (Kind (Tok D) = EarlyAbortIf \<or> Kind (Tok D) = tok_eof \<or>
             (isClosing (Kind (Tok D)) \<and> OpenCount D (Kind (Tok D)) \<noteq> 0 \<and> w \<noteq> []))"
    show "r = (False, D, Toks @ w)" by (rule lost[OF k])
    have "stored = w" unfolding assms(5) lost[OF k] by simp
    then show "delimiters_match [] stored" and "net_nesting stored = 0"
      using m n by simp_all
  qed
qed

theorem ConsumeAndStoreUntil_captures_well_nested_witness:
  "well_nested tok_r_brace tok_unknown tok_unknown []
     [tk tok_identifier 1, tk tok_l_paren 2, tk tok_identifier 3, tk tok_r_paren 4]
   \<and> ConsumeAndStoreUntil tok_r_brace tok_unknown [tk tok_l_brace 0] tok_unknown True
       (startCursor (tk tok_identifier 1)
          [tk tok_l_paren 2, tk tok_identifier 3, tk tok_r_paren 4, tk tok_r_brace 5,
           tk tok_semi 6]) =
     (True, startCursor (tk tok_semi 6) [],
      [tk tok_l_brace 0, tk tok_identifier 1, tk tok_l_paren 2, tk tok_identifier 3,
       tk tok_r_paren 4, tk tok_r_brace 5])
   \<and> delimiters_match []
       [tk tok_identifier 1, tk tok_l_paren 2, tk tok_identifier 3, tk tok_r_paren 4]
   \<and> well_nested tok_l_brace tok_unknown tok_semi []
       [tk tok_colon 1, tk tok_identifier 2, tk tok_l_paren 3, tk tok_r_paren 4]
   \<and> ConsumeAndStoreUntil tok_l_brace tok_unknown [] tok_semi True
       (startCursor (tk tok_colon 1)
          [tk tok_identifier 2, tk tok_l_paren 3, tk tok_r_paren 4]) =
     (False, startCursor (tk tok_eof 4) [],
      [tk tok_colon 1, tk tok_identifier 2, tk tok_l_paren 3, tk tok_r_paren 4])
   \<and> net_nesting
       [tk tok_colon 1, tk tok_identifier 2, tk tok_l_paren 3, tk tok_r_paren 4] = 0
   \<and> ConsumeAndStoreUntil tok_comma tok_unknown [] tok_unknown True
       \<lparr>Tok = tk tok_identifier 1, PP = [tk tok_r_brace 2, tk tok_comma 3], ParenCount = 0,
          BracketCount = 0, BraceCount = 1\<rparr> =
     (False,
      \<lparr>Tok = tk tok_r_brace 2, PP = [tk tok_comma 3], ParenCount = 0, BracketCount = 0,
         BraceCount = 1\<rparr>,
      [tk tok_identifier 1])"
  using ConsumeAndStoreUntil_captures_well_nested[of tok_r_brace tok_unknown tok_unknown
      "[tk tok_identifier 1, tk tok_l_paren 2, tk tok_identifier 3, tk tok_r_paren 4]"
      "startCursor (tk tok_identifier 1)
          [tk tok_l_paren 2, tk tok_identifier 3, tk tok_r_paren 4, tk tok_r_brace 5,
           tk tok_semi 6]"
      "startCursor (tk tok_r_brace 5) [tk tok_semi 6]" _ "[tk tok_l_brace 0]" True, OF _ _ _ refl refl]
    ConsumeAndStoreUntil_captures_well_nested[of tok_l_brace tok_unknown tok_semi
      "[tk tok_colon 1, tk tok_identifier 2, tk tok_l_paren 3, tk tok_r_paren 4]"
      "startCursor (tk tok_colon 1)
          [tk tok_identifier 2, tk tok_l_paren 3, tk tok_r_paren 4]"
      "startCursor (tk tok_eof 4) []" _ "[]" True, OF _ _ _ refl refl]
    ConsumeAndStoreUntil_captures_well_nested[of tok_comma tok_unknown tok_unknown
      "[tk tok_identifier 1]"
      "\<lparr>Tok = tk tok_identifier 1, PP = [tk tok_r_brace 2, tk tok_comma 3], ParenCount = 0,
          BracketCount = 0, BraceCount = 1\<rparr>"
      "\<lparr>Tok = tk tok_r_brace 2, PP = [tk tok_comma 3], ParenCount = 0, BracketCount = 0,
         BraceCount = 1\<rparr>" _ "[]" True, OF _ _ _ refl refl]
  by (simp add: run_defs delim_defs)


text \<open>
  Claim C5. When the loop meets a token of kind \<open>T1\<close> or \<open>T2\<close>, in any iteration: with
  \<^verbatim>\<open>ConsumeFinalToken\<close> set the token is appended to the container and consumed from the
  cursor, and the call returns true; with it cleared the call returns true and leaves
  both the container and the cursor as they are.
\<close>

theorem ConsumeAndStoreUntil_terminator:
  assumes "Kind (Tok C) = T1 \<or> Kind (Tok C) = T2"
  shows "ConsumeAndStoreUntil_loop T1 T2 EarlyAbortIf True isFirstTokenConsumed C Toks =
           (True, ConsumeAnyToken C, Toks @ [Tok C])
       \<and> ConsumeAndStoreUntil_loop T1 T2 EarlyAbortIf False isFirstTokenConsumed C Toks =
           (True, C, Toks)"
  using assms by (simp add: loop_terminator)

theorem ConsumeAndStoreUntil_terminator_witness:
  "ConsumeAndStoreUntil tok_r_brace tok_unknown [tk tok_l_brace 1] tok_unknown True
     (startCursor (tk tok_r_brace 2) [tk tok_semi 3]) =
     (True, startCursor (tk tok_semi 3) [], [tk tok_l_brace 1, tk tok_r_brace 2])
   \<and> ConsumeAndStoreUntil tok_r_brace tok_unknown [tk tok_l_brace 1] tok_unknown False
     (startCursor (tk tok_r_brace 2) [tk tok_semi 3]) =
     (True, startCursor (tk tok_r_brace 2) [tk tok_semi 3], [tk tok_l_brace 1])"
  using ConsumeAndStoreUntil_terminator[of "startCursor (tk tok_r_brace 2) [tk tok_semi 3]"
      tok_r_brace tok_unknown tok_unknown True "[tk tok_l_brace 1]"]
  by (simp add: run_defs)

text \<open>
  Claim C4. Apart from a closing delimiter that matches an outer level, the scanner reports
  not-found in two situations. When the current token is of the early-abort kind and not a
  terminator, the call returns false at once: the token is neither stored nor consumed, and
  the container holds what was consumed before. When the current token is end-of-input
  and not a terminator, the call returns false as well. Conversely, whenever a call returns
  false the cursor rests on a token that is no terminator and is of the early-abort kind,
  or end-of-input, or a closing delimiter whose open count is not zero; and the container
  holds everything consumed so far: for some \<open>n\<close>, the call has appended exactly the first
  \<open>n\<close> tokens the cursor delivered, in order, and has left the cursor \<open>n\<close> tokens further
  on, on the token that stopped it.
\<close>

theorem ConsumeAndStoreUntil_not_found:
  "(\<not> (Kind (Tok C) = T1 \<or> Kind (Tok C) = T2) \<and>
      (Kind (Tok C) = EarlyAbortIf \<or> Kind (Tok C) = tok_eof) \<longrightarrow>
    ConsumeAndStoreUntil_loop T1 T2 EarlyAbortIf ConsumeFinalToken isFirstTokenConsumed C Toks =
      (False, C, Toks))
   \<and> (ConsumeAndStoreUntil_loop T1 T2 EarlyAbortIf ConsumeFinalToken isFirstTokenConsumed C Toks =
        (False, C', Toks') \<longrightarrow>
      Kind (Tok C') \<noteq> T1 \<and> Kind (Tok C') \<noteq> T2 \<and>
      (Kind (Tok C') = EarlyAbortIf \<or> Kind (Tok C') = tok_eof \<or>
       (isClosing (Kind (Tok C')) \<and> OpenCount C' (Kind (Tok C')) \<noteq> 0)) \<and>
      (\<exists>n. Toks' = Toks @ delivered n C \<and>
           Tok C' = Tok (advanced n C) \<and> PP C' = PP (advanced n C)))"
proof (intro conjI impI)
  assume "\<not> (Kind (Tok C) = T1 \<or> Kind (Tok C) = T2) \<and>
      (Kind (Tok C) = EarlyAbortIf \<or> Kind (Tok C) = tok_eof)"
  then show "ConsumeAndStoreUntil_loop T1 T2 EarlyAbortIf ConsumeFinalToken
      isFirstTokenConsumed C Toks = (False, C, Toks)"
    by (auto simp: loop_abort loop_eof)
next
  assume r: "ConsumeAndStoreUntil_loop T1 T2 EarlyAbortIf ConsumeFinalToken
      isFirstTokenConsumed C Toks = (False, C', Toks')"
  from loop_not_found[OF r]
  show "Kind (Tok C') \<noteq> T1" and "Kind (Tok C') \<noteq> T2"
    and "Kind (Tok C') = EarlyAbortIf \<or> Kind (Tok C') = tok_eof \<or>
       (isClosing (Kind (Tok C')) \<and> OpenCount C' (Kind (Tok C')) \<noteq> 0)"
    by simp_all
  from loop_exact[of T1 T2 EarlyAbortIf ConsumeFinalToken isFirstTokenConsumed C Toks] r
  show "\<exists>n. Toks' = Toks @ delivered n C \<and>
           Tok C' = Tok (advanced n C) \<and> PP C' = PP (advanced n C)"
    by (simp add: same_stream_def)
qed

theorem ConsumeAndStoreUntil_not_found_witness:
  "ConsumeAndStoreUntil_loop tok_l_brace tok_unknown tok_semi True True
     (startCursor (tk tok_colon 1) [tk tok_identifier 2, tk tok_semi 3, tk tok_r_brace 4]) [] =
     (False, startCursor (tk tok_semi 3) [tk tok_r_brace 4],
      [tk tok_colon 1, tk tok_identifier 2])
   \<and> (\<exists>n. [tk tok_colon 1, tk tok_identifier 2] =
          [] @ delivered n (startCursor (tk tok_colon 1)
                 [tk tok_identifier 2, tk tok_semi 3, tk tok_r_brace 4]) \<and>
          Tok (startCursor (tk tok_semi 3) [tk tok_r_brace 4]) =
          Tok (advanced n (startCursor (tk tok_colon 1)
                 [tk tok_identifier 2, tk tok_semi 3, tk tok_r_brace 4])) \<and>
          PP (startCursor (tk tok_semi 3) [tk tok_r_brace 4]) =
          PP (advanced n (startCursor (tk tok_colon 1)
                 [tk tok_identifier 2, tk tok_semi 3, tk tok_r_brace 4])))
   \<and> ConsumeAndStoreUntil_loop tok_r_brace tok_unknown tok_unknown True True
     (startCursor (tk tok_l_paren 1) []) [] =
     (False, \<lparr>Tok = tk tok_eof 1, PP = [], ParenCount = 1, BracketCount = 0, BraceCount = 0\<rparr>,
      [tk tok_l_paren 1])
   \<and> Kind (Tok \<lparr>Tok = tk tok_eof 1, PP = [], ParenCount = 1, BracketCount = 0,
                  BraceCount = 0\<rparr>) = tok_eof"
proof -
  have run: "ConsumeAndStoreUntil_loop tok_l_brace tok_unknown tok_semi True True
     (startCursor (tk tok_colon 1) [tk tok_identifier 2, tk tok_semi 3, tk tok_r_brace 4]) [] =
     (False, startCursor (tk tok_semi 3) [tk tok_r_brace 4],
      [tk tok_colon 1, tk tok_identifier 2])"
    by (simp add: run_defs ConsumeAndStoreUntil_loop.simps)
  have run2: "ConsumeAndStoreUntil_loop tok_r_brace tok_unknown tok_unknown True True
     (startCursor (tk tok_l_paren 1) []) [] =
     (False, \<lparr>Tok = tk tok_eof 1, PP = [], ParenCount = 1, BracketCount = 0, BraceCount = 0\<rparr>,
      [tk tok_l_paren 1])"
    by (simp add: run_defs ConsumeAndStoreUntil_loop.simps)
  from ConsumeAndStoreUntil_not_found[of
      "startCursor (tk tok_colon 1) [tk tok_identifier 2, tk tok_semi 3, tk tok_r_brace 4]"
      tok_l_brace tok_unknown tok_semi True True "[]"
      "startCursor (tk tok_semi 3) [tk tok_r_brace 4]" "[tk tok_colon 1, tk tok_identifier 2]"]
    run run2
  show ?thesis by (simp add: tk_def)
qed

text \<open>
  Claim C6, as stated, with the early-abort kind left unrestricted. The call below scans for
  a closing brace with a closing parenthesis as its early-abort kind, and meets a closing
  parenthesis as its very first token. The token is a closing delimiter and no terminator,
  so by the claim it is appended and consumed and the scan goes on, to return true at the
  brace; the code returns false at the early-abort check, with nothing stored or consumed.
\<close>

theorem ConsumeAndStoreUntil_closing_delimiter_counterexample:
  "isClosing (Kind (Tok (startCursor (tk tok_r_paren 1) [tk tok_r_brace 2])))
   \<and> Kind (Tok (startCursor (tk tok_r_paren 1) [tk tok_r_brace 2])) \<noteq> tok_r_brace
   \<and> Kind (Tok (startCursor (tk tok_r_paren 1) [tk tok_r_brace 2])) \<noteq> tok_unknown
   \<and> ConsumeAndStoreUntil tok_r_brace tok_unknown [] tok_r_paren True
        (startCursor (tk tok_r_paren 1) [tk tok_r_brace 2]) =
      (False, startCursor (tk tok_r_paren 1) [tk tok_r_brace 2], [])
   \<and> ConsumeAndStoreUntil_loop tok_r_brace tok_unknown tok_r_paren True False
        (ConsumeAnyToken (startCursor (tk tok_r_paren 1) [tk tok_r_brace 2]))
        ([] @ [Tok (startCursor (tk tok_r_paren 1) [tk tok_r_brace 2])]) =
      (True, startCursor (tk tok_eof 2) [], [tk tok_r_paren 1, tk tok_r_brace 2])"
  by (simp add: run_defs delim_defs ConsumeAndStoreUntil_loop.simps)

text \<open>
  Claim C6, amended. When the loop meets a closing delimiter that is neither one of its
  terminators nor of its early-abort kind: if the open count of that delimiter kind is not
  zero and this is not the first token the call examines, the call returns false and leaves
  the token in the cursor; otherwise the token is appended to the container and consumed,
  and the loop goes on.
\<close>

theorem ConsumeAndStoreUntil_closing_delimiter:
  assumes "\<not> (Kind (Tok C) = T1 \<or> Kind (Tok C) = T2)"
    and "Kind (Tok C) \<noteq> EarlyAbortIf"
    and "isClosing (Kind (Tok C))"
  shows "ConsumeAndStoreUntil_loop T1 T2 EarlyAbortIf ConsumeFinalToken isFirstTokenConsumed C Toks =
     (if OpenCount C (Kind (Tok C)) \<noteq> 0 \<and> \<not> isFirstTokenConsumed then (False, C, Toks)
      else ConsumeAndStoreUntil_loop T1 T2 EarlyAbortIf ConsumeFinalToken False
             (ConsumeAnyToken C) (Toks @ [Tok C]))"
  using assms by (rule loop_closing)

theorem ConsumeAndStoreUntil_closing_delimiter_witness:
  "ConsumeAndStoreUntil_loop tok_r_brace tok_unknown tok_unknown True False
     \<lparr>Tok = tk tok_r_paren 5, PP = [tk tok_r_brace 6], ParenCount = 1, BracketCount = 0,
        BraceCount = 1\<rparr> [tk tok_identifier 4] =
     (False, \<lparr>Tok = tk tok_r_paren 5, PP = [tk tok_r_brace 6], ParenCount = 1,
        BracketCount = 0, BraceCount = 1\<rparr>, [tk tok_identifier 4])
   \<and> ConsumeAndStoreUntil_loop tok_r_brace tok_unknown tok_unknown True True
     \<lparr>Tok = tk tok_r_paren 5, PP = [tk tok_r_brace 6], ParenCount = 1, BracketCount = 0,
        BraceCount = 1\<rparr> [] =
     (True, \<lparr>Tok = tk tok_eof 6, PP = [], ParenCount = 0, BracketCount = 0, BraceCount = 0\<rparr>,
      [tk tok_r_paren 5, tk tok_r_brace 6])"
  using ConsumeAndStoreUntil_closing_delimiter[of
      "\<lparr>Tok = tk tok_r_paren 5, PP = [tk tok_r_brace 6], ParenCount = 1, BracketCount = 0,
         BraceCount = 1\<rparr>" tok_r_brace tok_unknown tok_unknown True False
      "[tk tok_identifier 4]"]
    ConsumeAndStoreUntil_closing_delimiter[of
      "\<lparr>Tok = tk tok_r_paren 5, PP = [tk tok_r_brace 6], ParenCount = 1, BracketCount = 0,
         BraceCount = 1\<rparr>" tok_r_brace tok_unknown tok_unknown True True "[]"]
  by (simp add: run_defs delim_defs ConsumeAndStoreUntil_loop.simps)


text \<open>
  Claim C10. The scanner terminates on every cursor: every chain of recursive calls from
  any arguments is finite (\<open>ConsumeAndStoreUntil_loop_dom\<close> is the accessible part of the
  call relation), and the cursor a call leaves has no more tokens left than the one it
  was given. Each iteration of the loop either returns, or goes on to the next iteration
  with strictly fewer tokens left: after an opening delimiter the next iteration starts
  where the recursive call stopped, otherwise one token further on.
\<close>

theorem ConsumeAndStoreUntil_terminates:
  "ConsumeAndStoreUntil_loop_dom
     (T1, T2, EarlyAbortIf, ConsumeFinalToken, isFirstTokenConsumed, C, Toks)
   \<and> tokens_left (fst (snd (ConsumeAndStoreUntil_loop T1 T2 EarlyAbortIf ConsumeFinalToken
        isFirstTokenConsumed C Toks))) \<le> tokens_left C
   \<and> (Kind (Tok C) = T1 \<or> Kind (Tok C) = T2 \<or> Kind (Tok C) = EarlyAbortIf
        \<or> Kind (Tok C) = tok_eof
        \<or> (isClosing (Kind (Tok C)) \<and> OpenCount C (Kind (Tok C)) \<noteq> 0
              \<and> \<not> isFirstTokenConsumed)
        \<or> (let next = (if isOpening (Kind (Tok C))
                         then snd (ConsumeAndStoreUntil_loop (closerOf (Kind (Tok C)))
                                tok_unknown tok_unknown True True
                                (ConsumeAnyToken C) (Toks @ [Tok C]))
                         else (ConsumeAnyToken C, Toks @ [Tok C]))
            in tokens_left (fst next) < tokens_left C
               \<and> ConsumeAndStoreUntil_loop T1 T2 EarlyAbortIf ConsumeFinalToken
                    isFirstTokenConsumed C Toks =
                  ConsumeAndStoreUntil_loop T1 T2 EarlyAbortIf ConsumeFinalToken False
                    (fst next) (snd next)))"
proof -
  have dom: "ConsumeAndStoreUntil_loop_dom
     (T1, T2, EarlyAbortIf, ConsumeFinalToken, isFirstTokenConsumed, C, Toks)"
    using loop_total by simp
  have le: "tokens_left (fst (snd (ConsumeAndStoreUntil_loop T1 T2 EarlyAbortIf ConsumeFinalToken
        isFirstTokenConsumed C Toks))) \<le> tokens_left C"
    by (metis loop_tokens_left prod.collapse)
  let ?ret = "Kind (Tok C) = T1 \<or> Kind (Tok C) = T2 \<or> Kind (Tok C) = EarlyAbortIf
        \<or> Kind (Tok C) = tok_eof
        \<or> (isClosing (Kind (Tok C)) \<and> OpenCount C (Kind (Tok C)) \<noteq> 0
              \<and> \<not> isFirstTokenConsumed)"
  let ?next = "if isOpening (Kind (Tok C))
                         then snd (ConsumeAndStoreUntil_loop (closerOf (Kind (Tok C)))
                                tok_unknown tok_unknown True True
                                (ConsumeAnyToken C) (Toks @ [Tok C]))
                         else (ConsumeAnyToken C, Toks @ [Tok C])"
  have step: "tokens_left (fst ?next) < tokens_left C
               \<and> ConsumeAndStoreUntil_loop T1 T2 EarlyAbortIf ConsumeFinalToken
                    isFirstTokenConsumed C Toks =
                  ConsumeAndStoreUntil_loop T1 T2 EarlyAbortIf ConsumeFinalToken False
                    (fst ?next) (snd ?next)" if nr: "\<not> ?ret"
  proof (cases "isOpening (Kind (Tok C))")
    case True
    obtain x D Ts where r: "ConsumeAndStoreUntil_loop (closerOf (Kind (Tok C))) tok_unknown
        tok_unknown True True (ConsumeAnyToken C) (Toks @ [Tok C]) = (x, D, Ts)"
      by (metis prod_cases3)
    have "tokens_left D \<le> tokens_left (ConsumeAnyToken C)" by (rule loop_tokens_left[OF r])
    also have "\<dots> < tokens_left C" using nr by (simp add: tokens_left_ConsumeAnyToken_less)
    finally show ?thesis using True nr r by (simp add: loop_opening)
  next
    case False
    with nr show ?thesis
      by (cases "isClosing (Kind (Tok C))")
         (auto simp: loop_closing loop_plain tokens_left_ConsumeAnyToken_less)
  qed
  from dom le step show ?thesis
    unfolding Let_def by blast
qed

section \<open>Properties of capture and replay\<close>

text \<open>
  Claim C3. When \<^verbatim>\<open>ParseCXXInlineMethodDef\<close> is entered on a colon and the scan for the
  opening brace of the body returns false with the cursor on a semicolon, the routine
  records the diagnostic \<^verbatim>\<open>err_expected_lbrace\<close> at the semicolon, consumes the semicolon,
  and returns the declaration normally; the class parse stack, and with it the body queue
  of the current frame, is what it was on entry: the item that was pushed is removed.
\<close>

theorem ParseCXXInlineMethodDef_stray_semicolon:
  assumes "isFunctionDeclarator Dcl"
    and "Kind (Tok (Cur P)) = tok_colon"
    and "TopClassStacks P = TC # stk"
    and "ConsumeAndStoreUntil tok_l_brace tok_unknown [] tok_semi True (Cur P) =
           (False, C1, Toks1)"
    and "Kind (Tok C1) = tok_semi"
  shows "ParseCXXInlineMethodDef K AS Dcl P =
           Inr (MemberDeclarator K AS Dcl,
                P\<lparr>Cur := ConsumeAnyToken C1,
                  Events := Events P @ [ActOnCXXMemberDeclarator AS Dcl,
                                        Diag (Loc (Tok C1)) err_expected_lbrace]\<rparr>)"
  using assms
  by (simp add: ParseCXXInlineMethodDef_def Let_def butlast_set_back_Toks)

theorem ParseCXXInlineMethodDef_stray_semicolon_witness:
  "ParseCXXInlineMethodDef failingCollaborators AS_public functionDeclarator
     (startParser (tk tok_colon 1)
        [tk tok_identifier 2, tk tok_l_paren 3, tk tok_r_paren 4, tk tok_semi 5, tk tok_r_brace 6]
        \<lparr>MethodDecls = [],
           MethodDefs = [\<lparr>LexedMethod_D = 3,
                           LexedMethod_Toks = [tk tok_l_brace 0, tk tok_r_brace 0]\<rparr>]\<rparr>) =
   Inr (7, \<lparr>Cur = startCursor (tk tok_r_brace 6) [],
             TopClassStacks =
               [\<lparr>MethodDecls = [],
                  MethodDefs = [\<lparr>LexedMethod_D = 3,
                                  LexedMethod_Toks = [tk tok_l_brace 0, tk tok_r_brace 0]\<rparr>]\<rparr>],
             Events = [ActOnCXXMemberDeclarator AS_public functionDeclarator,
                       Diag 5 err_expected_lbrace]\<rparr>)"
  using ParseCXXInlineMethodDef_stray_semicolon[of functionDeclarator
      "startParser (tk tok_colon 1)
        [tk tok_identifier 2, tk tok_l_paren 3, tk tok_r_paren 4, tk tok_semi 5, tk tok_r_brace 6]
        \<lparr>MethodDecls = [],
           MethodDefs = [\<lparr>LexedMethod_D = 3,
                           LexedMethod_Toks = [tk tok_l_brace 0, tk tok_r_brace 0]\<rparr>]\<rparr>"
      "\<lparr>MethodDecls = [],
           MethodDefs = [\<lparr>LexedMethod_D = 3,
                           LexedMethod_Toks = [tk tok_l_brace 0, tk tok_r_brace 0]\<rparr>]\<rparr>"
      "[]" "startCursor (tk tok_semi 5) [tk tok_r_brace 6]"
      "[tk tok_colon 1, tk tok_identifier 2, tk tok_l_paren 3, tk tok_r_paren 4]"
      failingCollaborators AS_public]
  by (simp add: run_defs replay_defs ConsumeAndStoreUntil_loop.simps)

text \<open>
  Claim C9. When \<^verbatim>\<open>ParseCXXInlineMethodDef\<close> returns, and every body item that was queued
  before the call can be replayed, then every body item queued after the call can be
  replayed: its captured sequence is not empty and starts with an opening brace or a colon.
  This is what \<^verbatim>\<open>ParseLexedMethodDefs\<close> asserts of each item before it replays it, so the
  bodies pass on the resulting parser fails no assertion, whatever the collaborators do.
\<close>

theorem ParseCXXInlineMethodDef_queue_replayable:
  assumes "ParseCXXInlineMethodDef K AS Dcl P = Inr (FnD, P')"
    and "\<forall>TC\<in>set (TopClassStacks P). \<forall>LM\<in>set (MethodDefs TC). LexedMethod_replayable LM"
  shows "(\<forall>TC\<in>set (TopClassStacks P'). \<forall>LM\<in>set (MethodDefs TC). LexedMethod_replayable LM)
       \<and> (\<exists>P''. ParseLexedMethodDefs K' P' = Inr P'')"
proof -
  from ParseCXXInlineMethodDef_result[OF assms(1)] obtain TC stk where
    st: "TopClassStacks P = TC # stk" and
    alt: "TopClassStacks P' = TopClassStacks P \<or>
            (\<exists>Toks. TopClassStacks P' =
                TC\<lparr>MethodDefs := MethodDefs TC @
                      [\<lparr>LexedMethod_D = FnD, LexedMethod_Toks = Tok (Cur P) # Toks\<rparr>]\<rparr> # stk
              \<and> (Kind (Tok (Cur P)) = tok_l_brace \<or> Kind (Tok (Cur P)) = tok_colon))"
    by blast
  from alt st assms(2)
  have inv: "\<forall>TC\<in>set (TopClassStacks P'). \<forall>LM\<in>set (MethodDefs TC). LexedMethod_replayable LM"
    by (auto simp: LexedMethod_replayable_def)
  from alt st obtain TC' where st': "TopClassStacks P' = TC' # stk" by auto
  with inv have "\<forall>LM\<in>set (MethodDefs TC'). LexedMethod_replayable LM" by simp
  from ParseLexedMethodDefs_runs[OF refl st' this] inv show ?thesis by blast
qed

theorem ParseCXXInlineMethodDef_queue_replayable_witness:
  "ParseCXXInlineMethodDef failingCollaborators AS_public functionDeclarator
     (startParser (tk tok_l_brace 1)
        [tk tok_identifier 2, tk tok_semi 3, tk tok_r_brace 4, tk tok_r_brace 5]
        \<lparr>MethodDecls = [],
           MethodDefs = [\<lparr>LexedMethod_D = 3,
                           LexedMethod_Toks = [tk tok_colon 0, tk tok_l_brace 0,
                                               tk tok_r_brace 0]\<rparr>]\<rparr>) =
   Inr (7, \<lparr>Cur = startCursor (tk tok_r_brace 5) [],
             TopClassStacks =
               [\<lparr>MethodDecls = [],
                  MethodDefs =
                    [\<lparr>LexedMethod_D = 3,
                       LexedMethod_Toks = [tk tok_colon 0, tk tok_l_brace 0, tk tok_r_brace 0]\<rparr>,
                     \<lparr>LexedMethod_D = 7,
                       LexedMethod_Toks = [tk tok_l_brace 1, tk tok_identifier 2, tk tok_semi 3,
                                           tk tok_r_brace 4]\<rparr>]\<rparr>],
             Events = [ActOnCXXMemberDeclarator AS_public functionDeclarator]\<rparr>)
   \<and> LexedMethod_replayable
       \<lparr>LexedMethod_D = 7,
          LexedMethod_Toks = [tk tok_l_brace 1, tk tok_identifier 2, tk tok_semi 3,
                              tk tok_r_brace 4]\<rparr>"
  using ParseCXXInlineMethodDef_queue_replayable[of failingCollaborators AS_public
      functionDeclarator
      "startParser (tk tok_l_brace 1)
        [tk tok_identifier 2, tk tok_semi 3, tk tok_r_brace 4, tk tok_r_brace 5]
        \<lparr>MethodDecls = [],
           MethodDefs = [\<lparr>LexedMethod_D = 3,
                           LexedMethod_Toks = [tk tok_colon 0, tk tok_l_brace 0,
                                               tk tok_r_brace 0]\<rparr>]\<rparr>"
      7
      "\<lparr>Cur = startCursor (tk tok_r_brace 5) [],
             TopClassStacks =
               [\<lparr>MethodDecls = [],
                  MethodDefs =
                    [\<lparr>LexedMethod_D = 3,
                       LexedMethod_Toks = [tk tok_colon 0, tk tok_l_brace 0, tk tok_r_brace 0]\<rparr>,
                     \<lparr>LexedMethod_D = 7,
                       LexedMethod_Toks = [tk tok_l_brace 1, tk tok_identifier 2, tk tok_semi 3,
                                           tk tok_r_brace 4]\<rparr>]\<rparr>],
             Events = [ActOnCXXMemberDeclarator AS_public functionDeclarator]\<rparr>"
      failingCollaborators]
  by (simp add: run_defs replay_defs ConsumeAndStoreUntil_loop.simps)




text \<open>
  Claim C8. For a parameter with a captured sequence \<open>t # ts\<close>, the pass appends the current
  token to the sequence, enters the sequence as the token source and consumes the current
  token. The current token is then \<open>t\<close>, the first token of the captured sequence, and the
  tokens to come are the rest of the sequence, the token that was current, and the original
  stream. So when the captured sequence starts with \<^verbatim>\<open>=\<close> the assertion on line 92 holds, the
  \<^verbatim>\<open>=\<close> is consumed, and the expression is parsed from the token after it; the result is
  reported with the location of the \<^verbatim>\<open>=\<close>, and the loop goes on from the cursor the
  expression parser left, unless it left tokens of the sequence unread.
\<close>

theorem default_argument_cursor_substitution:
  assumes "DefaultArg_Toks A = Some (t # ts)"
  shows "Tok (ConsumeAnyToken (EnterTokenStream ((t # ts) @ [Tok (Cur P)]) (Cur P))) = t
       \<and> PP (ConsumeAnyToken (EnterTokenStream ((t # ts) @ [Tok (Cur P)]) (Cur P))) =
           ts @ Tok (Cur P) # PP (Cur P)
       \<and> (Kind t = tok_equal \<longrightarrow>
            ParseDefaultArguments K I (A # As) P =
              (case AssignmentExpression K
                      (ConsumeToken (ConsumeAnyToken
                         (EnterTokenStream ((t # ts) @ [Tok (Cur P)]) (Cur P)))) of
                 (ExprError, C2) \<Rightarrow>
                   if CachedTokens_pending (Cur P) C2 then Inl UseAfterFree
                   else ParseDefaultArguments K (Suc I) As
                     (clear_DefaultArg_Toks I
                        (P\<lparr>Cur := C2,
                           Events := Events P @ [ActOnDelayedCXXMethodParameter (Param A),
                                                 ActOnParamDefaultArgumentError (Param A)]\<rparr>))
               | (ExprResult e, C2) \<Rightarrow>
                   if CachedTokens_pending (Cur P) C2 then Inl UseAfterFree
                   else ParseDefaultArguments K (Suc I) As
                     (clear_DefaultArg_Toks I
                        (P\<lparr>Cur := C2,
                           Events := Events P @ [ActOnDelayedCXXMethodParameter (Param A),
                                                 ActOnParamDefaultArgument (Param A) (Loc t) e]\<rparr>))))"
proof -
  have c1: "Tok (ConsumeAnyToken (EnterTokenStream ((t # ts) @ [Tok (Cur P)]) (Cur P))) = t"
    and c2: "PP (ConsumeAnyToken (EnterTokenStream ((t # ts) @ [Tok (Cur P)]) (Cur P))) =
           ts @ Tok (Cur P) # PP (Cur P)"
    by (rule Enter_ConsumeAnyToken)+
  from assms c1 c2 show ?thesis
    by (simp add: Let_def split: prod.splits OwningExprResult.splits)
qed

theorem default_argument_cursor_substitution_witness:
  "Tok (ConsumeAnyToken (EnterTokenStream
          ([tk tok_equal 1, tk tok_identifier 2] @ [tk tok_r_brace 9])
          (startCursor (tk tok_r_brace 9) [tk tok_semi 10]))) = tk tok_equal 1
   \<and> PP (ConsumeAnyToken (EnterTokenStream
          ([tk tok_equal 1, tk tok_identifier 2] @ [tk tok_r_brace 9])
          (startCursor (tk tok_r_brace 9) [tk tok_semi 10]))) =
       [tk tok_identifier 2, tk tok_r_brace 9, tk tok_semi 10]
   \<and> ParseDefaultArguments failingCollaborators 0
       [\<lparr>Param = 11, DefaultArg_Toks = Some [tk tok_equal 1, tk tok_identifier 2]\<rparr>]
       (startParser (tk tok_r_brace 9) [tk tok_semi 10] \<lparr>MethodDecls = [], MethodDefs = []\<rparr>) =
     Inr \<lparr>Cur = startCursor (tk tok_r_brace 9) [tk tok_semi 10],
           TopClassStacks = [\<lparr>MethodDecls = [], MethodDefs = []\<rparr>],
           Events = [ActOnDelayedCXXMethodParameter 11, ActOnParamDefaultArgumentError 11]\<rparr>"
  using default_argument_cursor_substitution[of
      "\<lparr>Param = 11, DefaultArg_Toks = Some [tk tok_equal 1, tk tok_identifier 2]\<rparr>"
      "tk tok_equal 1" "[tk tok_identifier 2]"
      "startParser (tk tok_r_brace 9) [tk tok_semi 10] \<lparr>MethodDecls = [], MethodDefs = []\<rparr>"
      failingCollaborators 0 "[]"]
  by (simp add: run_defs replay_defs)

end
